theory Spec2Isabelle
  imports Complex_Main "HOL-Library.AList" "HOL-Library.Multiset"
begin

section \<open>Strings and cache keys\<close>

text \<open>
  JavaScript strings are modelled as Isabelle strings. Of the characters that
  \<^verbatim>\<open>String.prototype.trim\<close> strips and that the white space class of regular expressions
  matches, these seven have a code below 256: tab, line feed, vertical tab, form feed,
  carriage return, space and no-break space.
\<close>

definition is_space :: "char \<Rightarrow> bool" where
  "is_space c = (c \<in> set [CHR 0x09, CHR 0x0A, CHR 0x0B, CHR 0x0C, CHR 0x0D, CHR 0x20, CHR 0xA0])"

text \<open>\<^verbatim>\<open>text.trim()\<close>: white space is dropped at both ends.\<close>

definition trim :: "string \<Rightarrow> string" where
  "trim s = rev (dropWhile is_space (rev (dropWhile is_space s)))"

text \<open>The global replacement of white space runs by \<^verbatim>\<open>' '\<close>: every maximal run of white
  space becomes one space.\<close>

function replace_ws_runs :: "string \<Rightarrow> string" where
  "replace_ws_runs [] = []"
| "replace_ws_runs (c # cs) =
     (if is_space c then CHR '' '' # replace_ws_runs (dropWhile is_space cs)
      else c # replace_ws_runs cs)"
  by pat_completeness auto
termination
  by (relation "measure length") (auto simp: less_Suc_eq_le length_dropWhile_le)

text \<open>The first line of \<^verbatim>\<open>generateCacheKey\<close>: trim, then collapse the runs.\<close>

definition normalize :: "string \<Rightarrow> string" where
  "normalize text = replace_ws_runs (trim text)"

text \<open>\<^verbatim>\<open>s.split(d)\<close> for a one-character separator; the result is never empty.\<close>

fun split_on :: "char \<Rightarrow> string \<Rightarrow> string list" where
  "split_on d [] = [[]]"
| "split_on d (c # cs) =
     (if c = d then [] # split_on d cs
      else (case split_on d cs of
              [] \<Rightarrow> [[c]]
            | w # ws \<Rightarrow> (c # w) # ws))"

text \<open>\<^verbatim>\<open>s.endsWith(suf)\<close> and \<^verbatim>\<open>s.replace(pat, rep)\<close> with a string pattern (the first
  occurrence only).\<close>

definition endsWith :: "string \<Rightarrow> string \<Rightarrow> bool" where
  "endsWith s suf = (length suf \<le> length s \<and> drop (length s - length suf) s = suf)"

fun replace_first :: "string \<Rightarrow> string \<Rightarrow> string \<Rightarrow> string" where
  "replace_first pat rep [] = (if pat = [] then rep else [])"
| "replace_first pat rep (c # cs) =
     (if take (length pat) (c # cs) = pat then rep @ drop (length pat) (c # cs)
      else c # replace_first pat rep cs)"

text \<open>Decimal digits of a number, as a template literal prints it.\<close>

fun dec :: "nat \<Rightarrow> string" where
  "dec n = (if n < 10 then [char_of (48 + n)] else dec (n div 10) @ [char_of (48 + n mod 10)])"

section \<open>The host: what the runtime and its libraries supply\<close>

text \<open>
  The routes run on Node.js. What they take from it, and not from this repository, is a
  parameter of the model: the cache directory (an absolute, normalised path), the MD5
  digest in hexadecimal, \<^verbatim>\<open>JSON.parse\<close> restricted to metadata records (\<open>None\<close> when it
  throws, or when reading a field of the result throws), \<^verbatim>\<open>JSON.stringify\<close>, and the size
  the operating system reports for a directory.
\<close>

type_synonym path = "string list"

record CacheMetadata =
  meta_text :: string
  meta_voice :: string
  meta_size :: nat
  meta_created :: string
  meta_lastUsed :: string
  meta_useCount :: nat
  meta_bookKey :: "string option"

record host =
  CACHE_DIR :: path
  md5_hex :: "string \<Rightarrow> string"
  JSON_parse :: "string \<Rightarrow> CacheMetadata option"
  JSON_stringify :: "CacheMetadata \<Rightarrow> string"
  dir_size :: nat

text \<open>\<^verbatim>\<open>extractBookHash\<close>: \<^verbatim>\<open>bookKey.split('-')[0]\<close>.\<close>

definition extractBookHash :: "string \<Rightarrow> string" where
  "extractBookHash bookKey = hd (split_on CHR ''-'' bookKey)"

text \<open>\<^verbatim>\<open>generateCacheKey\<close> (the same text in the synthesis route and in the check route).\<close>

definition generateCacheKey :: "host \<Rightarrow> string \<Rightarrow> string \<Rightarrow> string" where
  "generateCacheKey h text voice = md5_hex h (normalize text @ voice)"

section \<open>The file system\<close>

text \<open>
  A file system is an association list from absolute paths (lists of components) to
  nodes; the root is a directory. The operations are those of \<^verbatim>\<open>fs/promises\<close> that the
  routes call; each either returns or throws, and a throw leaves the file system as it
  was.
\<close>

datatype node = File string | Dir

type_synonym fs = "(path \<times> node) list"

datatype fs_error = ENOENT | ENOTDIR | EISDIR | EEXIST

definition lookup :: "fs \<Rightarrow> path \<Rightarrow> node option" where
  "lookup fs p = (if p = [] then Some Dir else map_of fs p)"

definition access :: "fs \<Rightarrow> path \<Rightarrow> fs_error + unit" where
  "access fs p = (case lookup fs p of None \<Rightarrow> Inl ENOENT | Some _ \<Rightarrow> Inr ())"

definition readFile :: "fs \<Rightarrow> path \<Rightarrow> fs_error + string" where
  "readFile fs p =
     (case lookup fs p of
        None \<Rightarrow> Inl ENOENT
      | Some Dir \<Rightarrow> Inl EISDIR
      | Some (File c) \<Rightarrow> Inr c)"

definition writeFile :: "fs \<Rightarrow> path \<Rightarrow> string \<Rightarrow> fs_error + fs" where
  "writeFile fs p c =
     (case lookup fs p of
        Some Dir \<Rightarrow> Inl EISDIR
      | _ \<Rightarrow>
         (case lookup fs (butlast p) of
            None \<Rightarrow> Inl ENOENT
          | Some (File _) \<Rightarrow> Inl ENOTDIR
          | Some Dir \<Rightarrow> Inr (AList.update p (File c) fs)))"

definition unlink :: "fs \<Rightarrow> path \<Rightarrow> fs_error + fs" where
  "unlink fs p =
     (case lookup fs p of
        None \<Rightarrow> Inl ENOENT
      | Some Dir \<Rightarrow> Inl EISDIR
      | Some (File _) \<Rightarrow> Inr (AList.delete p fs))"

text \<open>\<^verbatim>\<open>fs.stat\<close>: the size and whether the node is a directory.\<close>

definition stat :: "host \<Rightarrow> fs \<Rightarrow> path \<Rightarrow> fs_error + (nat \<times> bool)" where
  "stat h fs p =
     (case lookup fs p of
        None \<Rightarrow> Inl ENOENT
      | Some Dir \<Rightarrow> Inr (dir_size h, True)
      | Some (File c) \<Rightarrow> Inr (length c, False))"

text \<open>\<^verbatim>\<open>fs.mkdir(p, { recursive: true })\<close>: the missing directories of \<open>p\<close> are created from
  the root down; a file in the way is an error.\<close>

fun mkdirs :: "path \<Rightarrow> string list \<Rightarrow> fs \<Rightarrow> fs_error + fs" where
  "mkdirs base [] fs = Inr fs"
| "mkdirs base (d # ds) fs =
     (case lookup fs (base @ [d]) of
        Some (File _) \<Rightarrow> Inl (if ds = [] then EEXIST else ENOTDIR)
      | Some Dir \<Rightarrow> mkdirs (base @ [d]) ds fs
      | None \<Rightarrow> mkdirs (base @ [d]) ds (AList.update (base @ [d]) Dir fs))"

definition mkdir_recursive :: "fs \<Rightarrow> path \<Rightarrow> fs_error + fs" where
  "mkdir_recursive fs p = mkdirs [] p fs"

text \<open>\<^verbatim>\<open>fs.readdir\<close>: the names of the entries directly under \<open>p\<close>.\<close>

definition readdir :: "fs \<Rightarrow> path \<Rightarrow> fs_error + string list" where
  "readdir fs p =
     (case lookup fs p of
        None \<Rightarrow> Inl ENOENT
      | Some (File _) \<Rightarrow> Inl ENOTDIR
      | Some Dir \<Rightarrow>
          Inr (remdups (map (\<lambda>(q, n). last q) (filter (\<lambda>(q, n). q \<noteq> [] \<and> butlast q = p) fs))))"

text \<open>
  \<^verbatim>\<open>path.join(base, seg1, ..., segn)\<close> on POSIX for an absolute base: the segments are cut
  at every slash; empty components and \<^verbatim>\<open>.\<close> are skipped, \<^verbatim>\<open>..\<close> removes the last
  component (and stays at the root).
\<close>

fun norm_step :: "path \<Rightarrow> string \<Rightarrow> path" where
  "norm_step p c =
     (if c = [] \<or> c = ''.'' then p
      else if c = ''..'' then butlast p
      else p @ [c])"

definition path_join :: "path \<Rightarrow> string list \<Rightarrow> path" where
  "path_join base segs = foldl norm_step base (concat (map (split_on CHR ''/'') segs))"

section \<open>The synthesis route: the cache store\<close>

text \<open>A JavaScript string is truthy when it is present and not empty.\<close>

fun truthy :: "string option \<Rightarrow> bool" where
  "truthy None = False"
| "truthy (Some s) = (s \<noteq> [])"

text \<open>\<^verbatim>\<open>ensureCacheDir(bookKey?, voice?)\<close>: a failing \<^verbatim>\<open>mkdir\<close> is logged and swallowed.\<close>

definition ensureCacheDir :: "host \<Rightarrow> fs \<Rightarrow> string option \<Rightarrow> string option \<Rightarrow> fs" where
  "ensureCacheDir h fs bookKey voice =
     (case (if truthy bookKey \<and> truthy voice
            then mkdir_recursive fs (path_join (CACHE_DIR h) [the bookKey, the voice])
            else mkdir_recursive fs (CACHE_DIR h)) of
        Inl err \<Rightarrow> fs
      | Inr fs' \<Rightarrow> fs')"

definition getCacheFilePath :: "host \<Rightarrow> string \<Rightarrow> string \<Rightarrow> string \<Rightarrow> path" where
  "getCacheFilePath h bookKey voice cacheKey =
     path_join (CACHE_DIR h) [bookKey, voice, cacheKey @ ''.mp3'']"

definition getMetadataFilePath :: "host \<Rightarrow> string \<Rightarrow> string \<Rightarrow> string \<Rightarrow> path" where
  "getMetadataFilePath h bookKey voice cacheKey =
     path_join (CACHE_DIR h) [bookKey, voice, cacheKey @ ''.meta.json'']"

definition getLegacyCacheFilePath :: "host \<Rightarrow> string \<Rightarrow> path" where
  "getLegacyCacheFilePath h cacheKey = path_join (CACHE_DIR h) [cacheKey @ ''.mp3'']"

definition getLegacyMetadataFilePath :: "host \<Rightarrow> string \<Rightarrow> path" where
  "getLegacyMetadataFilePath h cacheKey = path_join (CACHE_DIR h) [cacheKey @ ''.meta.json'']"

text \<open>
  \<^verbatim>\<open>migrateCacheFile\<close>. The outer \<^verbatim>\<open>catch\<close> logs and rethrows, so a throw of the body is a
  throw of the function; \<open>Inl\<close> carries the error and the file system as the throw left
  it. The two inner \<^verbatim>\<open>try\<close> blocks (copying the metadata, deleting the legacy metadata)
  swallow their errors.
\<close>

definition migrateCacheFile ::
  "host \<Rightarrow> fs \<Rightarrow> string \<Rightarrow> string \<Rightarrow> string \<Rightarrow> (fs_error \<times> fs) + fs" where
  "migrateCacheFile h fs bookKey voice cacheKey =
     (let legacyAudioPath = getLegacyCacheFilePath h cacheKey;
          legacyMetaPath = getLegacyMetadataFilePath h cacheKey;
          fs1 = ensureCacheDir h fs (Some bookKey) (Some voice)
      in case readFile fs1 legacyAudioPath of
           Inl err \<Rightarrow> Inl (err, fs1)
         | Inr audioBuffer \<Rightarrow>
            (case writeFile fs1 (getCacheFilePath h bookKey voice cacheKey) audioBuffer of
               Inl err \<Rightarrow> Inl (err, fs1)
             | Inr fs2 \<Rightarrow>
                (let fs3 =
                      (case readFile fs2 legacyMetaPath of
                         Inl err \<Rightarrow> fs2
                       | Inr metaBuffer \<Rightarrow>
                          (case writeFile fs2 (getMetadataFilePath h bookKey voice cacheKey) metaBuffer of
                             Inl err \<Rightarrow> fs2
                           | Inr fs' \<Rightarrow> fs'))
                 in case unlink fs3 legacyAudioPath of
                      Inl err \<Rightarrow> Inl (err, fs3)
                    | Inr fs4 \<Rightarrow>
                       Inr (case unlink fs4 legacyMetaPath of Inl err \<Rightarrow> fs4 | Inr fs' \<Rightarrow> fs'))))"

text \<open>
  \<^verbatim>\<open>isCached\<close> of the synthesis route: the nested location first, then the legacy one,
  which is migrated. The call of \<^verbatim>\<open>migrateCacheFile\<close> stands inside the inner \<^verbatim>\<open>try\<close>, so a
  failed migration answers \<^verbatim>\<open>false\<close>.
\<close>

definition isCached :: "host \<Rightarrow> fs \<Rightarrow> string \<Rightarrow> string \<Rightarrow> string \<Rightarrow> bool \<times> fs" where
  "isCached h fs bookKey voice cacheKey =
     (case access fs (getCacheFilePath h bookKey voice cacheKey) of
        Inr u \<Rightarrow> (True, fs)
      | Inl err \<Rightarrow>
         (case access fs (getLegacyCacheFilePath h cacheKey) of
            Inl err \<Rightarrow> (False, fs)
          | Inr u \<Rightarrow>
             (case migrateCacheFile h fs bookKey voice cacheKey of
                Inl (err, fs') \<Rightarrow> (False, fs')
              | Inr fs' \<Rightarrow> (True, fs'))))"

definition getCachedAudio :: "host \<Rightarrow> fs \<Rightarrow> string \<Rightarrow> string \<Rightarrow> string \<Rightarrow> fs_error + string" where
  "getCachedAudio h fs bookKey voice cacheKey =
     readFile fs (getCacheFilePath h bookKey voice cacheKey)"

text \<open>
  \<^verbatim>\<open>cacheAudio\<close>; \<open>metadata\<close> is the \<^verbatim>\<open>Partial<CacheMetadata>\<close> of the caller (its text,
  voice and bookKey fields), \<open>created\<close> and \<open>lastUsed\<close> are the two readings of the clock.
\<close>

record PartialMetadata =
  part_text :: "string option"
  part_voice :: "string option"
  part_bookKey :: "string option"

definition or_empty :: "string option \<Rightarrow> string" where
  "or_empty s = (case s of None \<Rightarrow> [] | Some t \<Rightarrow> t)"

definition cacheAudio ::
  "host \<Rightarrow> string \<Rightarrow> string \<Rightarrow> fs \<Rightarrow> string \<Rightarrow> string \<Rightarrow> string \<Rightarrow> string \<Rightarrow> PartialMetadata
     \<Rightarrow> (fs_error \<times> fs) + fs" where
  "cacheAudio h created lastUsed fs bookKey voice cacheKey audioBuffer metadata =
     (let fs1 = ensureCacheDir h fs (Some bookKey) (Some voice);
          filePath = getCacheFilePath h bookKey voice cacheKey;
          metaPath = getMetadataFilePath h bookKey voice cacheKey
      in case writeFile fs1 filePath audioBuffer of
           Inl err \<Rightarrow> Inl (err, fs1)
         | Inr fs2 \<Rightarrow>
            (let metaData = \<lparr> meta_text = or_empty (part_text metadata),
                              meta_voice = or_empty (part_voice metadata),
                              meta_size = length audioBuffer,
                              meta_created = created,
                              meta_lastUsed = lastUsed,
                              meta_useCount = 1,
                              meta_bookKey = part_bookKey metadata \<rparr>
             in case writeFile fs2 metaPath (JSON_stringify h metaData) of
                  Inl err \<Rightarrow> Inl (err, fs2)
                | Inr fs3 \<Rightarrow> Inr fs3))"

text \<open>
  \<^verbatim>\<open>updateMetadata\<close>: the body of its \<^verbatim>\<open>try\<close> (reading, parsing, bumping, writing back), and
  the function, whose \<^verbatim>\<open>catch\<close> logs a warning and returns.
\<close>

datatype js_error = FsError fs_error | SyntaxError

definition updateMetadata_try :: "host \<Rightarrow> string \<Rightarrow> fs \<Rightarrow> string \<Rightarrow> string \<Rightarrow> string \<Rightarrow> js_error + fs" where
  "updateMetadata_try h now fs bookKey voice cacheKey =
     (let metaPath = getMetadataFilePath h bookKey voice cacheKey
      in case readFile fs metaPath of
           Inl err \<Rightarrow> Inl (FsError err)
         | Inr data \<Rightarrow>
            (case JSON_parse h data of
               None \<Rightarrow> Inl SyntaxError
             | Some meta \<Rightarrow>
                (case writeFile fs metaPath
                        (JSON_stringify h
                           (meta\<lparr> meta_lastUsed := now, meta_useCount := meta_useCount meta + 1 \<rparr>)) of
                   Inl err \<Rightarrow> Inl (FsError err)
                 | Inr fs' \<Rightarrow> Inr fs')))"

definition updateMetadata :: "host \<Rightarrow> string \<Rightarrow> fs \<Rightarrow> string \<Rightarrow> string \<Rightarrow> string \<Rightarrow> js_error + fs" where
  "updateMetadata h now fs bookKey voice cacheKey =
     (case updateMetadata_try h now fs bookKey voice cacheKey of
        Inl err \<Rightarrow> Inr fs
      | Inr fs' \<Rightarrow> Inr fs')"

section \<open>The check route\<close>

text \<open>
  The check route has its own \<^verbatim>\<open>getCacheFilePath\<close> and \<^verbatim>\<open>isCached\<close>: the book key is
  optional, and the function only calls \<^verbatim>\<open>fs.access\<close>, on the nested path and on the
  legacy path. It is given the shape of the synthesis route's \<^verbatim>\<open>isCached\<close>, the answer
  and the file system afterwards, so that the two can be compared.
\<close>

definition check_getCacheFilePath :: "host \<Rightarrow> string option \<Rightarrow> string \<Rightarrow> string \<Rightarrow> path" where
  "check_getCacheFilePath h bookKey voice cacheKey =
     (if truthy bookKey then path_join (CACHE_DIR h) [the bookKey, voice, cacheKey @ ''.mp3'']
      else path_join (CACHE_DIR h) [cacheKey @ ''.mp3''])"

definition check_isCached :: "host \<Rightarrow> fs \<Rightarrow> string option \<Rightarrow> string \<Rightarrow> string \<Rightarrow> bool \<times> fs" where
  "check_isCached h fs bookKey voice cacheKey =
     (if truthy bookKey
         \<and> access fs (check_getCacheFilePath h bookKey voice cacheKey) = Inr ()
      then (True, fs)
      else (case access fs (getLegacyCacheFilePath h cacheKey) of
              Inr u \<Rightarrow> (True, fs)
            | Inl err \<Rightarrow> (False, fs)))"

record CheckRequest =
  req_texts :: "string list"
  req_voice :: string
  req_bookKey :: "string option"

record CheckResult =
  res_text :: string
  res_cached :: bool
  res_cacheKey :: string

record CheckResponse =
  results :: "CheckResult list"
  cachedCount :: nat
  totalCount :: nat

text \<open>
  \<^verbatim>\<open>POST /check\<close>. \<open>Inl 400\<close> is the answer to a request without a voice. The checks of
  the texts only read the file system, so the order in which \<^verbatim>\<open>Promise.all\<close> runs them
  does not matter. The response's \<^verbatim>\<open>cacheRate\<close>, a floating-point quotient of the two
  counts, is not part of the model.
\<close>

definition check_POST :: "host \<Rightarrow> fs \<Rightarrow> CheckRequest \<Rightarrow> nat + CheckResponse" where
  "check_POST h fs body =
     (if req_voice body = [] then Inl 400
      else
        (let effectiveBookKey =
               (if truthy (req_bookKey body) then Some (extractBookHash (the (req_bookKey body)))
                else None);
             rs = map (\<lambda>text.
                    (let cacheKey = generateCacheKey h text (req_voice body)
                     in \<lparr> res_text = text,
                          res_cached = fst (check_isCached h fs effectiveBookKey (req_voice body) cacheKey),
                          res_cacheKey = take 12 cacheKey \<rparr>))
                  (req_texts body)
         in Inr \<lparr> results = rs,
                  cachedCount = length (filter res_cached rs),
                  totalCount = length rs \<rparr>))"

section \<open>The statistics route: clearing the cache\<close>

record ClearCacheRequest =
  clear_bookKey :: "string option"
  clear_voice :: "string option"

record ClearCacheResponse =
  resp_deletedCount :: nat
  resp_deletedSize :: nat

definition stats_getMetadataFilePath :: "host \<Rightarrow> string \<Rightarrow> path" where
  "stats_getMetadataFilePath h cacheKey = path_join (CACHE_DIR h) [cacheKey @ ''.meta.json'']"

text \<open>The decision of one loop iteration of \<^verbatim>\<open>POST /stats\<close>: whether the audio file whose
  metadata is at \<open>metaPath\<close> is to be deleted.\<close>

definition shouldDelete :: "host \<Rightarrow> fs \<Rightarrow> ClearCacheRequest \<Rightarrow> path \<Rightarrow> bool" where
  "shouldDelete h fs body metaPath =
     (let bookKey = clear_bookKey body; voice = clear_voice body
      in if \<not> truthy bookKey \<and> \<not> truthy voice then True
         else
           (case readFile fs metaPath of
              Inl err \<Rightarrow> \<not> truthy bookKey \<and> \<not> truthy voice
            | Inr metaData \<Rightarrow>
               (case JSON_parse h metaData of
                  None \<Rightarrow> \<not> truthy bookKey \<and> \<not> truthy voice
                | Some meta \<Rightarrow>
                   (if truthy bookKey \<and> meta_bookKey meta = bookKey
                    then (\<not> truthy voice \<or> Some (meta_voice meta) = voice)
                    else (truthy voice \<and> \<not> truthy bookKey \<and> Some (meta_voice meta) = voice)))))"

text \<open>The loop over the audio files of the cache directory, with the two counters and
  the file system as its state.\<close>

fun clear_loop ::
  "host \<Rightarrow> ClearCacheRequest \<Rightarrow> string list \<Rightarrow> fs \<times> nat \<times> nat \<Rightarrow> fs \<times> nat \<times> nat" where
  "clear_loop h body [] st = st"
| "clear_loop h body (audioFile # rest) (fs, deletedCount, deletedSize) =
     (let cacheKey = replace_first ''.mp3'' [] audioFile;
          audioPath = path_join (CACHE_DIR h) [audioFile];
          metaPath = stats_getMetadataFilePath h cacheKey
      in clear_loop h body rest
           (if shouldDelete h fs body metaPath then
              (case stat h fs audioPath of
                 Inl err \<Rightarrow> (fs, deletedCount, deletedSize)
               | Inr (sz, isdir) \<Rightarrow>
                  (case unlink fs audioPath of
                     Inl err \<Rightarrow> (fs, deletedCount, deletedSize + sz)
                   | Inr fs' \<Rightarrow>
                      ((case unlink fs' metaPath of Inl err \<Rightarrow> fs' | Inr fs'' \<Rightarrow> fs''),
                       deletedCount + 1, deletedSize + sz)))
            else (fs, deletedCount, deletedSize)))"

text \<open>The route's own \<^verbatim>\<open>ensureCacheDir\<close> creates the cache directory only.\<close>

definition stats_ensureCacheDir :: "host \<Rightarrow> fs \<Rightarrow> fs" where
  "stats_ensureCacheDir h fs =
     (case mkdir_recursive fs (CACHE_DIR h) of Inl err \<Rightarrow> fs | Inr fs' \<Rightarrow> fs')"

text \<open>\<^verbatim>\<open>POST /stats\<close>: \<open>Inl 500\<close> when \<^verbatim>\<open>readdir\<close> throws.\<close>

definition stats_POST :: "host \<Rightarrow> fs \<Rightarrow> ClearCacheRequest \<Rightarrow> (nat \<times> fs) + (ClearCacheResponse \<times> fs)" where
  "stats_POST h fs body =
     (let fs1 = stats_ensureCacheDir h fs
      in case readdir fs1 (CACHE_DIR h) of
           Inl err \<Rightarrow> Inl (500, fs1)
         | Inr files \<Rightarrow>
            (let audioFiles = filter (\<lambda>f. endsWith f ''.mp3'') files;
                 (fs2, n, sz) = clear_loop h body audioFiles (fs1, 0, 0)
             in Inr (\<lparr> resp_deletedCount = n, resp_deletedSize = sz \<rparr>, fs2)))"

section \<open>The pre-cache service\<close>

datatype job_state =
  Idle | Extracting | Checking | Synthesizing | Completed | Paused | Failed | Cancelled

record PreCacheProgress =
  pg_state :: job_state
  pg_current :: nat
  pg_total :: nat
  pg_percentage :: int
  pg_message :: string
  pg_error :: "string option"

text \<open>
  \<^verbatim>\<open>updateProgress\<close> builds the record that \<^verbatim>\<open>onProgress\<close> receives. The quotient is a
  double-precision computation, so \<^verbatim>\<open>Math.round((current / total) * 100)\<close> is the parameter
  \<open>round_percent current total'\<close>.
\<close>

definition updateProgress ::
  "(nat \<Rightarrow> nat \<Rightarrow> int) \<Rightarrow> job_state \<Rightarrow> nat \<Rightarrow> nat \<Rightarrow> string \<Rightarrow> string option \<Rightarrow> PreCacheProgress" where
  "updateProgress round_percent state current total' message error =
     \<lparr> pg_state = state, pg_current = current, pg_total = total',
       pg_percentage = (if total' > 0 then round_percent current total' else 0),
       pg_message = message, pg_error = error \<rparr>"

text \<open>The same rounding in exact arithmetic: the nearest integer to \<open>100 * current / total\<close>,
  halves upwards.\<close>

definition exact_round_percent :: "nat \<Rightarrow> nat \<Rightarrow> int" where
  "exact_round_percent current total' = int ((200 * current + total') div (2 * total'))"

text \<open>
  The loop of \<^verbatim>\<open>extractBookText\<close> over the marks of one page: a mark's text is trimmed and
  pushed unless it is missing, empty or already in \<^verbatim>\<open>allTexts\<close>.
\<close>

fun add_marks :: "string list \<Rightarrow> string option list \<Rightarrow> string list" where
  "add_marks allTexts [] = allTexts"
| "add_marks allTexts (None # marks) = add_marks allTexts marks"
| "add_marks allTexts (Some t # marks) =
     (let trimmedText = trim t
      in if trimmedText \<noteq> [] \<and> trimmedText \<notin> set allTexts
         then add_marks (allTexts @ [trimmedText]) marks
         else add_marks allTexts marks)"

text \<open>
  What happens while \<^verbatim>\<open>preCacheBook\<close> runs is recorded as a trace: the calls of
  \<^verbatim>\<open>onProgress\<close>, the synthesis requests sent (with the index of the chunk in
  \<^verbatim>\<open>uncachedTexts\<close>), the settling of each request (resolved or rejected), and the polls
  of the pause loop.
\<close>

datatype event =
  Progress PreCacheProgress
| Request nat string
| Settled nat bool
| Poll

text \<open>
  The environment of one run: whether the abort signal is set when the loop reaches
  index \<open>i\<close>; how many polls the pause flag stays set there (\<open>None\<close>: it is never
  cleared); after how long the request for chunk \<open>j\<close> settles (\<open>None\<close>: never); and
  whether it then resolves or is rejected.
\<close>

record synth_env =
  aborted_at :: "nat \<Rightarrow> bool"
  paused_polls :: "nat \<Rightarrow> nat option"
  settles_after :: "nat \<Rightarrow> nat option"
  resolves :: "nat \<Rightarrow> bool"

datatype ending = Returned | Threw string | Blocked

definition BATCH_SIZE :: nat where
  "BATCH_SIZE = 5"

text \<open>
  The promises of one batch settle one after the other, in the order \<open>js\<close>. A resolved
  request runs its \<^verbatim>\<open>then\<close> callback (\<^verbatim>\<open>completed++\<close> and a progress report); a rejected
  one is logged by its \<^verbatim>\<open>catch\<close>.
\<close>

fun settle_batch ::
  "(nat \<Rightarrow> nat \<Rightarrow> int) \<Rightarrow> synth_env \<Rightarrow> nat \<Rightarrow> nat list \<Rightarrow> nat \<Rightarrow> event list \<times> nat" where
  "settle_batch rp env totalToCache [] completed = ([], completed)"
| "settle_batch rp env totalToCache (j # js) completed =
     (if resolves env j then
        (let (evs, c) = settle_batch rp env totalToCache js (completed + 1)
         in (Settled j True
             # Progress (updateProgress rp Synthesizing (completed + 1) totalToCache
                  (''Synthesized '' @ dec (completed + 1) @ ''/'' @ dec totalToCache @ '' chunks...'')
                  None)
             # evs, c))
      else
        (let (evs, c) = settle_batch rp env totalToCache js completed
         in (Settled j False # evs, c)))"

text \<open>
  The requests of a batch are sent together, so those that settle do so in the order of
  their delays (in the order sent, among equal delays).
\<close>

definition settle_order :: "synth_env \<Rightarrow> nat list \<Rightarrow> nat list" where
  "settle_order env idxs =
     sort_key (\<lambda>j. the (settles_after env j)) (filter (\<lambda>j. settles_after env j \<noteq> None) idxs)"

text \<open>
  The \<^verbatim>\<open>for\<close> loop of step 3, from index \<open>i\<close> with \<open>completed\<close> chunks done. When a request of
  the batch never settles, \<^verbatim>\<open>Promise.all\<close> never resolves and the loop stays where it is.
\<close>

function synth_loop ::
  "(nat \<Rightarrow> nat \<Rightarrow> int) \<Rightarrow> synth_env \<Rightarrow> string list \<Rightarrow> nat \<Rightarrow> nat \<Rightarrow> event list \<times> ending" where
  "synth_loop rp env uncachedTexts i completed =
     (let totalToCache = length uncachedTexts
      in if i < length uncachedTexts then
           (if aborted_at env i then
              ([Progress (updateProgress rp Cancelled completed totalToCache
                   ''Pre-caching cancelled'' None)], Returned)
            else
              (case paused_polls env i of
                 None \<Rightarrow> ([], Blocked)
               | Some n \<Rightarrow>
                  (let idxs = [i ..< min (i + BATCH_SIZE) (length uncachedTexts)];
                       js = settle_order env idxs;
                       (evs, c) = settle_batch rp env totalToCache js completed;
                       (rest, e) = (if length js < length idxs then ([], Blocked)
                                    else synth_loop rp env uncachedTexts (i + BATCH_SIZE) c)
                   in (replicate n Poll @ map (\<lambda>j. Request j (uncachedTexts ! j)) idxs @ evs @ rest, e))))
         else
           ([Progress (updateProgress rp Completed totalToCache totalToCache
                (''Successfully pre-cached '' @ dec totalToCache @ '' chunks!'') None)], Returned))"
  by pat_completeness auto
termination
  by (relation "measure (\<lambda>(rp, env, uncachedTexts, i, completed). length uncachedTexts - i)")
     (auto simp: BATCH_SIZE_def)

text \<open>
  \<^verbatim>\<open>preCacheBook\<close>, given what \<^verbatim>\<open>extractBookText\<close> returned or threw and what the check
  request answers; both are calls out of this class.
\<close>

definition preCacheBook ::
  "(nat \<Rightarrow> nat \<Rightarrow> int) \<Rightarrow> synth_env \<Rightarrow> string + string list
     \<Rightarrow> (string list \<Rightarrow> string + CheckResponse) \<Rightarrow> event list \<times> ending" where
  "preCacheBook rp env extracted checkCachedTexts =
     (let failed = (\<lambda>msg. ([Progress (updateProgress rp Failed 0 0 ''Pre-caching failed'' (Some msg))],
                            Threw msg));
          emit = (\<lambda>p (evs, e). (Progress p # evs, e))
      in emit (updateProgress rp Extracting 0 0 ''Extracting book text...'' None)
          (case extracted of
             Inl msg \<Rightarrow> failed msg
           | Inr allTexts \<Rightarrow>
              (if length allTexts = 0 then
                 ([Progress (updateProgress rp Failed 0 0 ''No text found in book''
                      (Some ''Book appears to be empty''))], Returned)
               else
                 emit (updateProgress rp Checking 0 (length allTexts)
                        (''Checking cache status for '' @ dec (length allTexts) @ '' chunks...'') None)
                  (case checkCachedTexts allTexts of
                     Inl msg \<Rightarrow> failed msg
                   | Inr cacheStatus \<Rightarrow>
                      (let uncachedTexts =
                             map res_text (filter (\<lambda>r. \<not> res_cached r) (results cacheStatus))
                       in if length uncachedTexts = 0 then
                            ([Progress (updateProgress rp Completed (length allTexts) (length allTexts)
                                 ''All texts already cached!'' None)], Returned)
                          else
                            emit (updateProgress rp Synthesizing 0 (length uncachedTexts)
                                   (''Synthesizing '' @ dec (length uncachedTexts) @ '' uncached chunks...'')
                                   None)
                              (synth_loop rp env uncachedTexts 0 0))))))"

section \<open>A host for the examples\<close>

text \<open>
  The theorems below hold for every host. Where a closed example needs one, it uses
  \<open>demo_host\<close>: the cache directory \<^verbatim>\<open>/srv/tts-cache\<close>, the hexadecimal spelling of the input
  in the place of its MD5 digest, and metadata written one field per line.
\<close>

definition hex_digit :: "nat \<Rightarrow> char" where
  "hex_digit n = ''0123456789abcdef'' ! (n mod 16)"

definition hex_encode :: "string \<Rightarrow> string" where
  "hex_encode s = concat (map (\<lambda>c. [hex_digit (of_char c div 16), hex_digit (of_char c mod 16)]) s)"

definition undec :: "string \<Rightarrow> nat" where
  "undec s = foldl (\<lambda>n c. 10 * n + (of_char c - 48)) 0 s"

definition demo_stringify :: "CacheMetadata \<Rightarrow> string" where
  "demo_stringify m =
     meta_text m @ CHR 0x0A # meta_voice m @ CHR 0x0A # dec (meta_size m) @ CHR 0x0A
       # meta_created m @ CHR 0x0A # meta_lastUsed m @ CHR 0x0A # dec (meta_useCount m)
       @ (case meta_bookKey m of None \<Rightarrow> [] | Some b \<Rightarrow> CHR 0x0A # b)"

definition demo_parse :: "string \<Rightarrow> CacheMetadata option" where
  "demo_parse s =
     (case split_on (CHR 0x0A) s of
        [t, v, sz, cr, lu, uc] \<Rightarrow>
          Some \<lparr> meta_text = t, meta_voice = v, meta_size = undec sz, meta_created = cr,
                 meta_lastUsed = lu, meta_useCount = undec uc, meta_bookKey = None \<rparr>
      | [t, v, sz, cr, lu, uc, b] \<Rightarrow>
          Some \<lparr> meta_text = t, meta_voice = v, meta_size = undec sz, meta_created = cr,
                 meta_lastUsed = lu, meta_useCount = undec uc, meta_bookKey = Some b \<rparr>
      | _ \<Rightarrow> None)"

definition demo_host :: host where
  "demo_host =
     \<lparr> CACHE_DIR = [''srv'', ''tts-cache''], md5_hex = hex_encode, JSON_parse = demo_parse,
       JSON_stringify = demo_stringify, dir_size = 4096 \<rparr>"

text \<open>A cache directory without entries.\<close>

definition demo_empty_store :: fs where
  "demo_empty_store = [([''srv''], Dir), ([''srv'', ''tts-cache''], Dir)]"

text \<open>
  Three cache directories for the examples, each holding the audio of the text \<^verbatim>\<open>Hi\<close>
  under the key \<^verbatim>\<open>486956\<close> (the key of that text in the voice \<^verbatim>\<open>V\<close> under \<open>demo_host\<close>): in
  the nested layout as \<^verbatim>\<open>cacheAudio\<close> writes it for the book \<^verbatim>\<open>b00c\<close>, in the legacy flat
  layout, and in the nested layout with a damaged metadata file.
\<close>

definition demo_meta :: string where
  "demo_meta =
     demo_stringify \<lparr> meta_text = ''Hi'', meta_voice = ''V'', meta_size = 5,
       meta_created = ''t0'', meta_lastUsed = ''t0'', meta_useCount = 1,
       meta_bookKey = Some ''b00c'' \<rparr>"

definition demo_nested_store :: fs where
  "demo_nested_store =
     [([''srv''], Dir), ([''srv'', ''tts-cache''], Dir),
      ([''srv'', ''tts-cache'', ''b00c''], Dir),
      ([''srv'', ''tts-cache'', ''b00c'', ''V''], Dir),
      ([''srv'', ''tts-cache'', ''b00c'', ''V'', ''486956.mp3''], File ''AUDIO''),
      ([''srv'', ''tts-cache'', ''b00c'', ''V'', ''486956.meta.json''], File demo_meta)]"

definition demo_legacy_store :: fs where
  "demo_legacy_store =
     [([''srv''], Dir), ([''srv'', ''tts-cache''], Dir),
      ([''srv'', ''tts-cache'', ''486956.mp3''], File ''AUDIO''),
      ([''srv'', ''tts-cache'', ''486956.meta.json''], File demo_meta)]"

definition demo_corrupt_store :: fs where
  "demo_corrupt_store =
     [([''srv''], Dir), ([''srv'', ''tts-cache''], Dir),
      ([''srv'', ''tts-cache'', ''b00c''], Dir),
      ([''srv'', ''tts-cache'', ''b00c'', ''V''], Dir),
      ([''srv'', ''tts-cache'', ''b00c'', ''V'', ''486956.mp3''], File ''AUDIO''),
      ([''srv'', ''tts-cache'', ''b00c'', ''V'', ''486956.meta.json''], File ''{ damaged'')]"

text \<open>
  A cache directory that holds the same entry in the legacy layout, and in the nested
  layout an older audio file under the same key and a directory where the metadata file
  would be.
\<close>

definition demo_stale_store :: fs where
  "demo_stale_store =
     [([''srv''], Dir), ([''srv'', ''tts-cache''], Dir),
      ([''srv'', ''tts-cache'', ''486956.mp3''], File ''AUDIO''),
      ([''srv'', ''tts-cache'', ''486956.meta.json''], File demo_meta),
      ([''srv'', ''tts-cache'', ''b00c''], Dir),
      ([''srv'', ''tts-cache'', ''b00c'', ''V''], Dir),
      ([''srv'', ''tts-cache'', ''b00c'', ''V'', ''486956.mp3''], File ''OLD''),
      ([''srv'', ''tts-cache'', ''b00c'', ''V'', ''486956.meta.json''], Dir)]"

text \<open>What the migration of that entry leaves of \<open>demo_stale_store\<close>.\<close>

definition demo_overwritten_store :: fs where
  "demo_overwritten_store =
     [([''srv''], Dir), ([''srv'', ''tts-cache''], Dir),
      ([''srv'', ''tts-cache'', ''b00c''], Dir),
      ([''srv'', ''tts-cache'', ''b00c'', ''V''], Dir),
      ([''srv'', ''tts-cache'', ''b00c'', ''V'', ''486956.mp3''], File ''AUDIO''),
      ([''srv'', ''tts-cache'', ''b00c'', ''V'', ''486956.meta.json''], Dir)]"

text \<open>An environment for the examples: no cancel, no pause, every request resolves, and
  the requests of a batch settle in the order they were sent.\<close>

definition demo_env :: synth_env where
  "demo_env =
     \<lparr> aborted_at = (\<lambda>i. False), paused_polls = (\<lambda>i. Some 0),
       settles_after = (\<lambda>j. Some 1), resolves = (\<lambda>j. True) \<rparr>"

section \<open>Notions used to state and prove the properties\<close>

text \<open>
  Two texts that differ only in white space, in the words of the specification: in the
  length of a run of white space, or in white space at the start or the end. \<open>ws_variant\<close>
  is the equivalence these three differences generate.
\<close>

inductive ws_variant :: "string \<Rightarrow> string \<Rightarrow> bool" where
  same: "ws_variant s s"
| swap: "ws_variant s t \<Longrightarrow> ws_variant t s"
| chain: "ws_variant s t \<Longrightarrow> ws_variant t u \<Longrightarrow> ws_variant s u"
| leading: "is_space c \<Longrightarrow> ws_variant (c # s) s"
| trailing: "is_space c \<Longrightarrow> ws_variant (s @ [c]) s"
| run: "is_space c \<Longrightarrow> is_space d \<Longrightarrow> ws_variant (xs @ c # d # ys) (xs @ d # ys)"

text \<open>The words of a text (its maximal runs of characters that are not white space), and
  words joined by single spaces.\<close>

function ws_words :: "string \<Rightarrow> string list" where
  "ws_words [] = []"
| "ws_words (c # cs) =
     (if is_space c then ws_words cs
      else (c # takeWhile (\<lambda>x. \<not> is_space x) cs) # ws_words (dropWhile (\<lambda>x. \<not> is_space x) cs))"
  by pat_completeness auto
termination
  by (relation "measure length") (auto simp: less_Suc_eq_le length_dropWhile_le)

fun join_sp :: "string list \<Rightarrow> string" where
  "join_sp [] = []"
| "join_sp [w] = w"
| "join_sp (w # v # ws) = w @ CHR '' '' # join_sp (v # ws)"

text \<open>The directory part of a joined path whose last segment is \<open>k\<close> followed by a
  suffix: everything but the last component.\<close>

definition file_dir :: "path \<Rightarrow> string list \<Rightarrow> string \<Rightarrow> path" where
  "file_dir base segs k =
     foldl norm_step base (concat (map (split_on CHR ''/'') segs) @ butlast (split_on CHR ''/'' k))"

text \<open>The metadata of an entry is unreadable when its file cannot be read or does not
  parse.\<close>

definition metadata_unreadable :: "host \<Rightarrow> fs \<Rightarrow> string \<Rightarrow> string \<Rightarrow> string \<Rightarrow> bool" where
  "metadata_unreadable h fs bookKey voice cacheKey =
     (case readFile fs (getMetadataFilePath h bookKey voice cacheKey) of
        Inl err \<Rightarrow> True
      | Inr data \<Rightarrow> JSON_parse h data = None)"

text \<open>A store without audio: no node of the file system has a name that ends in
  \<^verbatim>\<open>.mp3\<close>.\<close>

definition no_audio_files :: "fs \<Rightarrow> bool" where
  "no_audio_files fs = list_all (\<lambda>(p, n). p = [] \<or> \<not> endsWith (last p) ''.mp3'') fs"

text \<open>Reading a trace: the progress reports in it, the number of requests sent and the
  number of requests settled.\<close>

fun progress_reports :: "event list \<Rightarrow> PreCacheProgress list" where
  "progress_reports [] = []"
| "progress_reports (Progress p # es) = p # progress_reports es"
| "progress_reports (e # es) = progress_reports es"

fun requests :: "event list \<Rightarrow> (nat \<times> string) list" where
  "requests [] = []"
| "requests (Request j t # es) = (j, t) # requests es"
| "requests (e # es) = requests es"

fun settled :: "event list \<Rightarrow> nat" where
  "settled [] = 0"
| "settled (Settled j ok # es) = Suc (settled es)"
| "settled (e # es) = settled es"

fun resolved :: "event list \<Rightarrow> nat" where
  "resolved [] = 0"
| "resolved (Settled j True # es) = Suc (resolved es)"
| "resolved (e # es) = resolved es"

text \<open>
  The reports of the synthesizing phase come one per resolved request: a trace has the
  shape \<open>per_chunk_reports\<close> when every resolved request is directly followed by a report
  in the state \<open>Synthesizing\<close>, and no other report is in that state.
\<close>

fun per_chunk_reports :: "event list \<Rightarrow> bool" where
  "per_chunk_reports [] = True"
| "per_chunk_reports (Settled j True # Progress p # es) =
     (pg_state p = Synthesizing \<and> per_chunk_reports es)"
| "per_chunk_reports (Settled j True # es) = False"
| "per_chunk_reports (Progress p # es) = (pg_state p \<noteq> Synthesizing \<and> per_chunk_reports es)"
| "per_chunk_reports (e # es) = per_chunk_reports es"

text \<open>The percentage of a report is the one \<^verbatim>\<open>updateProgress\<close> computes from its counters.\<close>

definition percentage_ok :: "(nat \<Rightarrow> nat \<Rightarrow> int) \<Rightarrow> PreCacheProgress \<Rightarrow> bool" where
  "percentage_ok rp p =
     (pg_percentage p = (if pg_total p > 0 then rp (pg_current p) (pg_total p) else 0))"

text \<open>Names of files and directories contain no slash: \<open>plain_names\<close> says so of every
  component of every path of a file system, \<open>plain_name\<close> of one segment that is also
  neither empty nor a dot segment.\<close>

definition plain_names :: "fs \<Rightarrow> bool" where
  "plain_names fs = list_all (\<lambda>p. list_all (\<lambda>c. CHR ''/'' \<notin> set c) p) (map fst fs)"

definition plain_name :: "string \<Rightarrow> bool" where
  "plain_name s = (s \<noteq> [] \<and> s \<noteq> ''.'' \<and> s \<noteq> ''..'' \<and> CHR ''/'' \<notin> set s)"

section \<open>Facts about the file system\<close>

lemma lookup_update:
  "p \<noteq> [] \<Longrightarrow> lookup (AList.update p n fs) q = (if q = p then Some n else lookup fs q)"
  by (simp add: lookup_def update_conv')

lemma lookup_delete:
  "p \<noteq> [] \<Longrightarrow> lookup (AList.delete p fs) q = (if q = p then None else lookup fs q)"
  by (simp add: lookup_def delete_conv')

lemma lookup_root: "lookup fs [] = Some Dir"
  by (simp add: lookup_def)

lemma writeFile_lookup:
  assumes "writeFile fs p c = Inr fs'"
  shows "lookup fs' q = (if q = p then Some (File c) else lookup fs q)"
proof -
  from assms have "p \<noteq> []"
    by (auto simp: writeFile_def lookup_root split: option.splits node.splits)
  moreover from assms have "fs' = AList.update p (File c) fs"
    by (auto simp: writeFile_def split: option.splits node.splits)
  ultimately show ?thesis by (simp add: lookup_update)
qed

lemma writeFile_succeeds:
  assumes "lookup fs p \<noteq> Some Dir" and "lookup fs (butlast p) = Some Dir"
  shows "\<exists>fs'. writeFile fs p c = Inr fs'"
  using assms by (auto simp: writeFile_def split: option.splits node.splits)

lemma unlink_lookup:
  assumes "unlink fs p = Inr fs'"
  shows "lookup fs' q = (if q = p then None else lookup fs q)"
proof -
  from assms have "p \<noteq> []"
    by (auto simp: unlink_def lookup_root split: option.splits node.splits)
  moreover from assms have "fs' = AList.delete p fs"
    by (auto simp: unlink_def split: option.splits node.splits)
  ultimately show ?thesis by (simp add: lookup_delete)
qed

lemma unlink_file:
  "lookup fs p = Some (File c) \<Longrightarrow> \<exists>fs'. unlink fs p = Inr fs'"
  by (simp add: unlink_def)

lemma mkdirs_preserves:
  "mkdirs base ds fs = Inr fs' \<Longrightarrow> lookup fs q = Some n \<Longrightarrow> lookup fs' q = Some n"
proof (induction base ds fs rule: mkdirs.induct)
  case (1 base fs)
  then show ?case by simp
next
  case (2 base d ds fs)
  show ?case
  proof (cases "lookup fs (base @ [d])")
    case None
    with 2(4) have "q \<noteq> base @ [d]" by auto
    with 2(4) have "lookup (AList.update (base @ [d]) Dir fs) q = Some n"
      by (simp add: lookup_update)
    with 2(1)[OF None] 2(3) None show ?thesis by simp
  next
    case (Some nd)
    with 2 show ?thesis by (cases nd) auto
  qed
qed

lemma mkdirs_changes:
  "mkdirs base ds fs = Inr fs' \<Longrightarrow> lookup fs' q \<noteq> lookup fs q \<Longrightarrow>
     lookup fs' q = Some Dir \<and> length q \<le> length base + length ds"
proof (induction base ds fs rule: mkdirs.induct)
  case (1 base fs)
  then show ?case by simp
next
  case (2 base d ds fs)
  show ?case
  proof (cases "lookup fs (base @ [d])")
    case None
    let ?fs1 = "AList.update (base @ [d]) Dir fs"
    from 2(3) None have run: "mkdirs (base @ [d]) ds ?fs1 = Inr fs'" by simp
    show ?thesis
    proof (cases "lookup fs' q = lookup ?fs1 q")
      case True
      with 2(4) have "q = base @ [d]" by (auto simp: lookup_update split: if_splits)
      with True show ?thesis by (simp add: lookup_update)
    next
      case False
      from 2(1)[OF None run False] show ?thesis by simp
    qed
  next
    case (Some nd)
    with 2 show ?thesis by (cases nd) auto
  qed
qed

lemma mkdirs_target:
  "mkdirs base ds fs = Inr fs' \<Longrightarrow> ds \<noteq> [] \<Longrightarrow> lookup fs' (base @ ds) = Some Dir"
proof (induction base ds fs rule: mkdirs.induct)
  case (1 base fs)
  then show ?case by simp
next
  case (2 base d ds fs)
  let ?fs1 = "case lookup fs (base @ [d]) of None \<Rightarrow> AList.update (base @ [d]) Dir fs | Some x \<Rightarrow> fs"
  from 2(3) have run: "mkdirs (base @ [d]) ds ?fs1 = Inr fs'" and nofile: "\<forall>c. lookup fs (base @ [d]) \<noteq> Some (File c)"
    by (auto split: option.splits node.splits)
  have here: "lookup ?fs1 (base @ [d]) = Some Dir"
    using nofile by (cases "lookup fs (base @ [d])") (auto simp: lookup_update intro: node.exhaust)
  show ?case
  proof (cases "ds = []")
    case True
    with run here show ?thesis by simp
  next
    case False
    from 2(3) False show ?thesis
      using 2(1,2) by (auto split: option.splits node.splits)
  qed
qed

lemma mkdir_recursive_target:
  "mkdir_recursive fs p = Inr fs' \<Longrightarrow> lookup fs' p = Some Dir"
  using mkdirs_target[of "[]" p fs fs'] by (cases "p = []") (auto simp: mkdir_recursive_def lookup_root)

lemma mkdir_recursive_preserves:
  "mkdir_recursive fs p = Inr fs' \<Longrightarrow> lookup fs q = Some n \<Longrightarrow> lookup fs' q = Some n"
  unfolding mkdir_recursive_def by (rule mkdirs_preserves)

lemma mkdir_recursive_changes:
  "mkdir_recursive fs p = Inr fs' \<Longrightarrow> lookup fs' q \<noteq> lookup fs q \<Longrightarrow>
     lookup fs' q = Some Dir \<and> length q \<le> length p"
  unfolding mkdir_recursive_def using mkdirs_changes[of "[]" p fs fs' q] by simp

lemma ensureCacheDir_preserves:
  "lookup fs q = Some n \<Longrightarrow> lookup (ensureCacheDir h fs bookKey voice) q = Some n"
  by (auto simp: ensureCacheDir_def split: sum.splits intro: mkdir_recursive_preserves)

lemma ensureCacheDir_changes:
  assumes "lookup (ensureCacheDir h fs bookKey voice) q \<noteq> lookup fs q"
  shows "lookup (ensureCacheDir h fs bookKey voice) q = Some Dir"
  using assms mkdir_recursive_changes
  by (fastforce simp: ensureCacheDir_def split: sum.splits if_splits)

lemma ensureCacheDir_files:
  "lookup (ensureCacheDir h fs bookKey voice) q = Some (File c) \<longleftrightarrow> lookup fs q = Some (File c)"
proof
  assume a: "lookup (ensureCacheDir h fs bookKey voice) q = Some (File c)"
  show "lookup fs q = Some (File c)"
  proof (rule ccontr)
    assume "lookup fs q \<noteq> Some (File c)"
    with a have "lookup (ensureCacheDir h fs bookKey voice) q \<noteq> lookup fs q" by simp
    from ensureCacheDir_changes[OF this] a show False by simp
  qed
next
  assume "lookup fs q = Some (File c)"
  then show "lookup (ensureCacheDir h fs bookKey voice) q = Some (File c)"
    by (rule ensureCacheDir_preserves)
qed

lemma ensureCacheDir_deeper:
  assumes "length (path_join (CACHE_DIR h) [bookKey, voice]) < length q" and "bookKey \<noteq> []" and "voice \<noteq> []"
  shows "lookup (ensureCacheDir h fs (Some bookKey) (Some voice)) q = lookup fs q"
  using assms mkdir_recursive_changes[of fs "path_join (CACHE_DIR h) [bookKey, voice]" _ q]
  by (fastforce simp: ensureCacheDir_def split: sum.splits)

section \<open>Facts about paths\<close>

lemma split_on_nonempty: "split_on d s \<noteq> []"
  by (induction s) (auto split: list.splits)

lemma split_on_append:
  "d \<notin> set suf \<Longrightarrow>
     split_on d (k @ suf) = butlast (split_on d k) @ [last (split_on d k) @ suf]"
proof (induction k)
  case Nil
  then show ?case by (induction suf) (auto split: list.splits)
next
  case (Cons c k)
  then show ?case
    by (cases "split_on d k") (auto simp: split_on_nonempty split: list.splits)
qed

lemma split_on_plain: "d \<notin> set s \<Longrightarrow> split_on d s = [s]"
  by (induction s) auto

lemma path_join_file:
  assumes "CHR ''/'' \<notin> set suf" and "3 \<le> length suf"
  shows "path_join base (segs @ [k @ suf]) = file_dir base segs k @ [last (split_on CHR ''/'' k) @ suf]"
proof -
  let ?c = "last (split_on CHR ''/'' k) @ suf"
  have "3 \<le> length ?c" using assms(2) by simp
  then have "?c \<noteq> [] \<and> ?c \<noteq> ''.'' \<and> ?c \<noteq> ''..''"
    by (auto dest: arg_cong[where f = length])
  then have "norm_step p ?c = p @ [?c]" for p by simp
  then show ?thesis
    using assms(1) by (simp add: path_join_def file_dir_def split_on_append)
qed

lemma path_join_plain_file:
  assumes "CHR ''/'' \<notin> set (k @ suf)" and "3 \<le> length suf"
  shows "path_join base (segs @ [k @ suf]) = path_join base segs @ [k @ suf]"
proof -
  have "3 \<le> length (k @ suf)" using assms(2) by simp
  then have "k @ suf \<noteq> [] \<and> k @ suf \<noteq> ''.'' \<and> k @ suf \<noteq> ''..''"
    by (auto dest: arg_cong[where f = length])
  then have "norm_step p (k @ suf) = p @ [k @ suf]" for p by simp
  then show ?thesis
    using assms(1) split_on_plain[of "CHR ''/''" "k @ suf"] by (simp add: path_join_def)
qed

lemma audio_meta_paths_differ:
  "path_join base (segs @ [k @ ''.mp3'']) \<noteq> path_join base' (segs' @ [k @ ''.meta.json''])"
  by (simp add: path_join_file)

lemma nested_paths_differ:
  "getCacheFilePath h bookKey voice cacheKey \<noteq> getMetadataFilePath h bookKey' voice' cacheKey"
  using audio_meta_paths_differ[of "CACHE_DIR h" "[bookKey, voice]" cacheKey "CACHE_DIR h" "[bookKey', voice']"]
  by (simp add: getCacheFilePath_def getMetadataFilePath_def)

lemma nested_legacy_meta_differ:
  "getCacheFilePath h bookKey voice cacheKey \<noteq> getLegacyMetadataFilePath h cacheKey"
  using audio_meta_paths_differ[of "CACHE_DIR h" "[bookKey, voice]" cacheKey "CACHE_DIR h" "[]"]
  by (simp add: getCacheFilePath_def getLegacyMetadataFilePath_def)

lemma legacy_nested_meta_differ:
  "getLegacyCacheFilePath h cacheKey \<noteq> getMetadataFilePath h bookKey voice cacheKey"
  using audio_meta_paths_differ[of "CACHE_DIR h" "[]" cacheKey "CACHE_DIR h" "[bookKey, voice]"]
  by (simp add: getLegacyCacheFilePath_def getMetadataFilePath_def)

lemma legacy_paths_differ:
  "getLegacyCacheFilePath h cacheKey \<noteq> getLegacyMetadataFilePath h cacheKey"
  using audio_meta_paths_differ[of "CACHE_DIR h" "[]" cacheKey "CACHE_DIR h" "[]"]
  by (simp add: getLegacyCacheFilePath_def getLegacyMetadataFilePath_def)

lemma nested_path_plain:
  assumes "CHR ''/'' \<notin> set cacheKey"
  shows "getCacheFilePath h bookKey voice cacheKey
           = path_join (CACHE_DIR h) [bookKey, voice] @ [cacheKey @ ''.mp3'']"
    and "getMetadataFilePath h bookKey voice cacheKey
           = path_join (CACHE_DIR h) [bookKey, voice] @ [cacheKey @ ''.meta.json'']"
    and "getLegacyCacheFilePath h cacheKey = CACHE_DIR h @ [cacheKey @ ''.mp3'']"
    and "getLegacyMetadataFilePath h cacheKey = CACHE_DIR h @ [cacheKey @ ''.meta.json'']"
  using assms path_join_plain_file[of cacheKey "''.mp3''" "CACHE_DIR h" "[bookKey, voice]"]
    path_join_plain_file[of cacheKey "''.meta.json''" "CACHE_DIR h" "[bookKey, voice]"]
    path_join_plain_file[of cacheKey "''.mp3''" "CACHE_DIR h" "[]"]
    path_join_plain_file[of cacheKey "''.meta.json''" "CACHE_DIR h" "[]"]
  by (simp_all add: getCacheFilePath_def getMetadataFilePath_def getLegacyCacheFilePath_def
        getLegacyMetadataFilePath_def path_join_def)

section \<open>Facts about normalisation\<close>

lemma dropWhile_all: "\<forall>x\<in>set xs. P x \<Longrightarrow> dropWhile P xs = []"
  by simp

lemma ws_words_dropWhile: "ws_words (dropWhile is_space s) = ws_words s"
  by (induction s) auto

lemma ws_words_spaces: "\<forall>c\<in>set sp. is_space c \<Longrightarrow> ws_words sp = []"
  by (induction sp) auto

lemma ws_words_append_spaces:
  "\<forall>c\<in>set sp. is_space c \<Longrightarrow> ws_words (s @ sp) = ws_words s"
proof (induction s rule: ws_words.induct)
  case 1
  then show ?case by (simp add: ws_words_spaces)
next
  case (2 c cs)
  show ?case
  proof (cases "is_space c")
    case True
    with 2 show ?thesis by simp
  next
    case False
    have "takeWhile (\<lambda>x. \<not> is_space x) sp = []"
      using 2(3) by (cases sp) auto
    then have tw: "takeWhile (\<lambda>x. \<not> is_space x) (cs @ sp) = takeWhile (\<lambda>x. \<not> is_space x) cs"
      by (cases "\<forall>x\<in>set cs. \<not> is_space x") (auto simp: takeWhile_append takeWhile_eq_all_conv[THEN iffD2])
    have dw: "ws_words (dropWhile (\<lambda>x. \<not> is_space x) (cs @ sp))
                = ws_words (dropWhile (\<lambda>x. \<not> is_space x) cs)"
    proof (cases "\<forall>x\<in>set cs. \<not> is_space x")
      case True
      then show ?thesis using 2(3) by (simp add: dropWhile_append dropWhile_all ws_words_spaces)
    next
      case False
      then have "dropWhile (\<lambda>x. \<not> is_space x) (cs @ sp) = dropWhile (\<lambda>x. \<not> is_space x) cs @ sp"
        by (auto simp: dropWhile_append)
      then show ?thesis using 2(2)[OF \<open>\<not> is_space c\<close> 2(3)] by simp
    qed
    show ?thesis using False tw dw by simp
  qed
qed

lemma ws_words_run:
  "is_space c \<Longrightarrow> is_space d \<Longrightarrow> ws_words (xs @ c # d # ys) = ws_words (xs @ d # ys)"
proof (induction xs rule: ws_words.induct)
  case 1
  then show ?case by simp
next
  case (2 x cs)
  show ?case
  proof (cases "is_space x")
    case True
    with 2 show ?thesis by simp
  next
    case False
    have tw: "takeWhile (\<lambda>x. \<not> is_space x) (cs @ c # d # ys) = takeWhile (\<lambda>x. \<not> is_space x) (cs @ d # ys)"
      using 2(3,4) by (auto simp: takeWhile_append)
    have dw: "ws_words (dropWhile (\<lambda>x. \<not> is_space x) (cs @ c # d # ys))
                = ws_words (dropWhile (\<lambda>x. \<not> is_space x) (cs @ d # ys))"
    proof (cases "\<forall>x\<in>set cs. \<not> is_space x")
      case True
      then show ?thesis using 2(3,4) by (simp add: dropWhile_append dropWhile_all)
    next
      case False
      then show ?thesis using 2(2)[OF \<open>\<not> is_space x\<close> 2(3,4)] by (auto simp: dropWhile_append)
    qed
    show ?thesis using False tw dw by simp
  qed
qed

lemma ws_variant_words: "ws_variant s t \<Longrightarrow> ws_words s = ws_words t"
proof (induction rule: ws_variant.induct)
  case (trailing c s)
  then show ?case using ws_words_append_spaces[of "[c]" s] by simp
qed (simp_all add: ws_words_run)

lemma ws_words_Nil_iff: "ws_words s = [] \<longleftrightarrow> (\<forall>c\<in>set s. is_space c)"
  by (induction s) auto

lemma join_sp_Cons: "join_sp ((c # w) # rest) = c # join_sp (w # rest)"
  by (cases rest) auto

lemma replace_ws_runs_words:
  "s = [] \<or> \<not> is_space (last s) \<Longrightarrow>
   replace_ws_runs s =
     (if s \<noteq> [] \<and> is_space (hd s) then CHR '' '' # join_sp (ws_words s) else join_sp (ws_words s))"
proof (induction s rule: replace_ws_runs.induct)
  case 1
  then show ?case by simp
next
  case (2 c cs)
  show ?case
  proof (cases "is_space c")
    case True
    let ?u = "dropWhile is_space cs"
    from 2(3) True have ne: "cs \<noteq> []" by auto
    with 2(3) have last: "\<not> is_space (last cs)" by simp
    then have une: "?u \<noteq> []" using ne by (metis dropWhile_eq_Nil_conv last_in_set)
    then have hd: "\<not> is_space (hd ?u)" by (rule hd_dropWhile)
    have "last ?u = last cs" using une
      by (metis last_appendR takeWhile_dropWhile_id)
    with last have "?u = [] \<or> \<not> is_space (last ?u)" by simp
    from 2(1)[OF True this] une hd have "replace_ws_runs ?u = join_sp (ws_words ?u)" by simp
    then show ?thesis using True by (simp add: ws_words_dropWhile)
  next
    case False
    from 2(3) have cs: "cs = [] \<or> \<not> is_space (last cs)" by (auto split: if_splits)
    note IH = 2(2)[OF False cs]
    show ?thesis
    proof (cases cs)
      case Nil
      then show ?thesis using False by simp
    next
      case (Cons d ds)
      show ?thesis
      proof (cases "is_space d")
        case True
        from cs Cons have "\<not> (\<forall>c\<in>set cs. is_space c)" by (metis last_in_set list.distinct(1))
        then obtain w ws where "ws_words cs = w # ws"
          using ws_words_Nil_iff[of cs] by (cases "ws_words cs") auto
        then show ?thesis using False True Cons IH by simp
      next
        case dns: False
        then show ?thesis using False Cons IH by (simp add: join_sp_Cons)
      qed
    qed
  qed
qed

lemma trim_shape:
  "trim s = [] \<or> (\<not> is_space (hd (trim s)) \<and> \<not> is_space (last (trim s)))"
proof (cases "trim s = []")
  case True then show ?thesis by simp
next
  case False
  let ?t = "dropWhile is_space s"
  let ?r = "dropWhile is_space (rev ?t)"
  have tr: "trim s = rev ?r" by (simp add: trim_def)
  with False have rne: "?r \<noteq> []" by simp
  then have "\<not> is_space (hd ?r)" by (rule hd_dropWhile)
  then have l: "\<not> is_space (last (trim s))" using tr rne by (simp add: last_rev)
  have tne: "?t \<noteq> []" using rne by (metis dropWhile.simps(1) rev.simps(1))
  then have hdt: "\<not> is_space (hd ?t)" by (rule hd_dropWhile)
  have "rev ?t = takeWhile is_space (rev ?t) @ ?r" by simp
  then have "?t = rev ?r @ rev (takeWhile is_space (rev ?t))"
    by (metis rev_append rev_rev_ident)
  then have "hd ?t = hd (rev ?r)" using rne by (metis hd_append2 rev_is_Nil_conv)
  with hdt tr have "\<not> is_space (hd (trim s))" by simp
  with l show ?thesis by simp
qed

lemma ws_words_trim: "ws_words (trim s) = ws_words s"
proof -
  let ?t = "dropWhile is_space s"
  let ?r = "dropWhile is_space (rev ?t)"
  have "rev ?t = takeWhile is_space (rev ?t) @ ?r" by simp
  then have t: "?t = rev ?r @ rev (takeWhile is_space (rev ?t))"
    by (metis rev_append rev_rev_ident)
  have "\<forall>c\<in>set (rev (takeWhile is_space (rev ?t))). is_space c"
    by (auto dest: set_takeWhileD)
  from ws_words_append_spaces[OF this, of "rev ?r"] t
  have "ws_words ?t = ws_words (rev ?r)" by simp
  then show ?thesis by (simp add: trim_def ws_words_dropWhile)
qed

lemma normalize_words: "normalize s = join_sp (ws_words s)"
proof -
  from trim_shape[of s] have "trim s = [] \<or> \<not> is_space (last (trim s))" by auto
  from replace_ws_runs_words[OF this] trim_shape[of s]
  show ?thesis by (auto simp: normalize_def ws_words_trim)
qed

lemma ws_variant_normalize: "ws_variant s t \<Longrightarrow> normalize s = normalize t"
  by (simp add: normalize_words ws_variant_words)

section \<open>Facts about migration\<close>

lemma migrateCacheFile_legacy_only:
  assumes lp: "lookup fs (getLegacyCacheFilePath h k) = Some (File audio)"
    and nd: "lookup fs (getCacheFilePath h b v k) \<noteq> Some Dir"
    and ne5: "getCacheFilePath h b v k \<noteq> getLegacyCacheFilePath h k"
    and b: "b \<noteq> []" and v: "v \<noteq> []" and k: "CHR ''/'' \<notin> set k"
    and mk: "mkdir_recursive fs (path_join (CACHE_DIR h) [b, v]) = Inr fs1"
  shows "\<exists>fs'. migrateCacheFile h fs b v k = Inr fs'
           \<and> lookup fs' (getCacheFilePath h b v k) = Some (File audio)
           \<and> lookup fs' (getLegacyCacheFilePath h k) = None
           \<and> (\<forall>c. lookup fs' (getLegacyMetadataFilePath h k) \<noteq> Some (File c))
           \<and> lookup fs' (getMetadataFilePath h b v k)
               = (case lookup fs (getLegacyMetadataFilePath h k) of
                    Some (File m) \<Rightarrow>
                      (if lookup fs (getMetadataFilePath h b v k) = Some Dir then Some Dir
                       else Some (File m))
                  | _ \<Rightarrow> lookup fs (getMetadataFilePath h b v k))"
proof -
  let ?dir = "path_join (CACHE_DIR h) [b, v]"
  let ?LP = "getLegacyCacheFilePath h k" and ?LM = "getLegacyMetadataFilePath h k"
  let ?NP = "getCacheFilePath h b v k" and ?NM = "getMetadataFilePath h b v k"
  note pl = nested_path_plain[OF k]
  have NPdir: "butlast ?NP = ?dir" and NMdir: "butlast ?NM = ?dir" by (simp_all add: pl)
  have ne1: "?NP \<noteq> ?NM" by (rule nested_paths_differ)
  have ne2: "?NP \<noteq> ?LM" by (rule nested_legacy_meta_differ)
  have ne3: "?LP \<noteq> ?NM" by (rule legacy_nested_meta_differ)
  have ne4: "?LP \<noteq> ?LM" by (rule legacy_paths_differ)
  from ne5 have "?dir \<noteq> CACHE_DIR h" by (simp add: pl)
  then have ne6: "?NM \<noteq> ?LM" by (simp add: pl)
  have ne7: "?dir \<noteq> ?NP" "?dir \<noteq> ?NM" by (simp_all add: pl)
  have fs1: "ensureCacheDir h fs (Some b) (Some v) = fs1"
    using mk b v by (simp add: ensureCacheDir_def)
  have d1: "lookup fs1 ?dir = Some Dir" using mk by (rule mkdir_recursive_target)
  have deeper: "lookup fs1 q = lookup fs q" if "length ?dir < length q" for q
    using ensureCacheDir_deeper[OF that b v, of fs] fs1 by simp
  have np1: "lookup fs1 ?NP \<noteq> Some Dir" using deeper[of ?NP] nd by (simp add: pl)
  have nm1: "lookup fs1 ?NM = lookup fs ?NM" using deeper[of ?NM] by (simp add: pl)
  have lp1: "lookup fs1 ?LP = Some (File audio)"
    using mkdir_recursive_preserves[OF mk lp] .
  have lm1: "lookup fs1 ?LM = Some (File m) \<longleftrightarrow> lookup fs ?LM = Some (File m)" for m
    using ensureCacheDir_files[of h fs "Some b" "Some v" ?LM m] fs1 by simp
  from np1 d1 NPdir obtain fs2 where w1: "writeFile fs1 ?NP audio = Inr fs2"
    using writeFile_succeeds[of fs1 ?NP audio] by auto
  note l2 = writeFile_lookup[OF w1]
  have rd: "readFile fs1 ?LP = Inr audio" using lp1 by (simp add: readFile_def)
  have nm2: "lookup fs2 ?NM = lookup fs ?NM" using l2[of ?NM] ne1 nm1 by simp
  have lp2: "lookup fs2 ?LP = Some (File audio)" using l2[of ?LP] ne5 lp1 by simp
  show ?thesis
  proof (cases "\<exists>m. lookup fs ?LM = Some (File m)")
    case True
    then obtain m where m: "lookup fs ?LM = Some (File m)" by blast
    then have m2: "lookup fs2 ?LM = Some (File m)" using l2[of ?LM] ne2 lm1[of m] by simp
    then have rdm: "readFile fs2 ?LM = Inr m" by (simp add: readFile_def)
    show ?thesis
    proof (cases "lookup fs ?NM = Some Dir")
      case dir: True
      then have w2: "writeFile fs2 ?NM m = Inl EISDIR" using nm2 by (simp add: writeFile_def)
      from lp2 obtain fs4 where u1: "unlink fs2 ?LP = Inr fs4" using unlink_file by blast
      note l4 = unlink_lookup[OF u1]
      have "lookup fs4 ?LM = Some (File m)" using l4[of ?LM] m2 ne4 by auto
      then obtain fs5 where u2: "unlink fs4 ?LM = Inr fs5" using unlink_file by blast
      note l5 = unlink_lookup[OF u2]
      have res: "migrateCacheFile h fs b v k = Inr fs5"
        using fs1 rd w1 rdm w2 u1 u2 by (simp add: migrateCacheFile_def Let_def)
      have "lookup fs5 ?NP = Some (File audio)"
        using l5[of ?NP] l4[of ?NP] l2[of ?NP] ne2 ne5 by simp
      moreover have "lookup fs5 ?LP = None" using l5[of ?LP] l4[of ?LP] by simp
      moreover have "lookup fs5 ?LM = None" using l5[of ?LM] by simp
      moreover have "lookup fs5 ?NM = Some Dir"
        using l5[of ?NM] l4[of ?NM] nm2 dir ne3 ne6 by auto
      ultimately show ?thesis using res m dir by simp
    next
      case nodir: False
      then have "lookup fs2 ?NM \<noteq> Some Dir" using nm2 by simp
      moreover have "lookup fs2 (butlast ?NM) = Some Dir" using l2[of ?dir] ne7 d1 NMdir by simp
      ultimately obtain fs3 where w2: "writeFile fs2 ?NM m = Inr fs3"
        using writeFile_succeeds[of fs2 ?NM m] by auto
      note l3 = writeFile_lookup[OF w2]
      have "lookup fs3 ?LP = Some (File audio)" using l3[of ?LP] lp2 ne3 by simp
      then obtain fs4 where u1: "unlink fs3 ?LP = Inr fs4" using unlink_file by blast
      note l4 = unlink_lookup[OF u1]
      have "lookup fs4 ?LM = Some (File m)" using l4[of ?LM] l3[of ?LM] m2 ne4 ne6 by auto
      then obtain fs5 where u2: "unlink fs4 ?LM = Inr fs5" using unlink_file by blast
      note l5 = unlink_lookup[OF u2]
      have res: "migrateCacheFile h fs b v k = Inr fs5"
        using fs1 rd w1 rdm w2 u1 u2 by (simp add: migrateCacheFile_def Let_def)
      have "lookup fs5 ?NP = Some (File audio)"
        using l5[of ?NP] l4[of ?NP] l3[of ?NP] l2[of ?NP] ne1 ne2 ne5 by simp
      moreover have "lookup fs5 ?LP = None" using l5[of ?LP] l4[of ?LP] by simp
      moreover have "lookup fs5 ?LM = None" using l5[of ?LM] by simp
      moreover have "lookup fs5 ?NM = Some (File m)"
        using l5[of ?NM] l4[of ?NM] l3[of ?NM] ne3 ne6 by auto
      ultimately show ?thesis using res m nodir by simp
    qed
  next
    case False
    then have nf1: "\<forall>m. lookup fs1 ?LM \<noteq> Some (File m)" using lm1 by simp
    then have nf2: "\<forall>m. lookup fs2 ?LM \<noteq> Some (File m)" using l2[of ?LM] ne2 by simp
    then have rdm: "\<exists>e. readFile fs2 ?LM = Inl e"
      by (auto simp: readFile_def split: option.splits node.splits)
    from lp2 obtain fs4 where u1: "unlink fs2 ?LP = Inr fs4" using unlink_file by blast
    note l4 = unlink_lookup[OF u1]
    have nf4: "\<forall>m. lookup fs4 ?LM \<noteq> Some (File m)" using l4[of ?LM] nf2 by simp
    then have "\<exists>e. unlink fs4 ?LM = Inl e"
      by (auto simp: unlink_def split: option.splits node.splits)
    with rdm have res: "migrateCacheFile h fs b v k = Inr fs4"
      using fs1 rd w1 u1 by (auto simp: migrateCacheFile_def Let_def)
    have "lookup fs4 ?NP = Some (File audio)" using l4[of ?NP] l2[of ?NP] ne5 by simp
    moreover have "lookup fs4 ?LP = None" using l4[of ?LP] by simp
    moreover have "lookup fs4 ?NM = lookup fs ?NM" using l4[of ?NM] nm2 ne3 by auto
    moreover have "(case lookup fs ?LM of
                      Some (File m) \<Rightarrow> (if lookup fs ?NM = Some Dir then Some Dir else Some (File m))
                    | _ \<Rightarrow> lookup fs ?NM)
                     = lookup fs ?NM"
      using False by (auto split: option.splits node.splits)
    ultimately show ?thesis using res nf4 by simp
  qed
qed

lemma migrateCacheFile_without_legacy_audio:
  assumes "\<forall>c. lookup fs (getLegacyCacheFilePath h k) \<noteq> Some (File c)"
  shows "\<exists>e fs'. migrateCacheFile h fs b v k = Inl (e, fs')"
proof -
  let ?fs1 = "ensureCacheDir h fs (Some b) (Some v)"
  from assms have "\<forall>c. lookup ?fs1 (getLegacyCacheFilePath h k) \<noteq> Some (File c)"
    by (simp add: ensureCacheDir_files)
  then have "\<exists>e. readFile ?fs1 (getLegacyCacheFilePath h k) = Inl e"
    by (auto simp: readFile_def split: option.splits node.splits)
  then show ?thesis by (auto simp: migrateCacheFile_def Let_def)
qed

section \<open>Facts about traces\<close>

lemma exact_round_percent_round:
  "0 < t \<Longrightarrow> exact_round_percent c t = round (100 * real c / real t)"
proof -
  assume t: "0 < t"
  have "100 * real c / real t + 1 / 2 = real_of_int (int (200 * c + t)) / real_of_int (int (2 * t))"
    using t by (simp add: field_simps)
  then have "round (100 * real c / real t) = \<lfloor>real_of_int (int (200 * c + t)) / real_of_int (int (2 * t))\<rfloor>"
    by (simp add: round_def)
  also have "\<dots> = int (200 * c + t) div int (2 * t)"
    by (rule floor_divide_of_int_eq)
  finally show ?thesis by (simp add: exact_round_percent_def zdiv_int)
qed

lemma updateProgress_percentage_ok [simp]:
  "percentage_ok rp (updateProgress rp st c t msg err)"
  by (simp add: percentage_ok_def updateProgress_def)

lemma updateProgress_state [simp]: "pg_state (updateProgress rp st c t msg err) = st"
  and updateProgress_current [simp]: "pg_current (updateProgress rp st c t msg err) = c"
  by (simp_all add: updateProgress_def)

lemma progress_reports_append [simp]:
  "progress_reports (xs @ ys) = progress_reports xs @ progress_reports ys"
  by (induction xs rule: progress_reports.induct) auto

lemma requests_append [simp]: "requests (xs @ ys) = requests xs @ requests ys"
  by (induction xs rule: requests.induct) auto

lemma settled_append [simp]: "settled (xs @ ys) = settled xs + settled ys"
  by (induction xs rule: settled.induct) auto

lemma resolved_append [simp]: "resolved (xs @ ys) = resolved xs + resolved ys"
  by (induction xs rule: resolved.induct) auto

lemma polls_trace [simp]:
  "progress_reports (replicate n Poll) = []" "requests (replicate n Poll) = []"
  "settled (replicate n Poll) = 0" "resolved (replicate n Poll) = 0"
  "per_chunk_reports (replicate n Poll @ es) = per_chunk_reports es"
  by (induction n) auto

lemma requests_trace [simp]:
  "progress_reports (map (\<lambda>j. Request j (f j)) js) = []"
  "requests (map (\<lambda>j. Request j (f j)) js) = map (\<lambda>j. (j, f j)) js"
  "settled (map (\<lambda>j. Request j (f j)) js) = 0"
  "resolved (map (\<lambda>j. Request j (f j)) js) = 0"
  "per_chunk_reports (map (\<lambda>j. Request j (f j)) js @ es) = per_chunk_reports es"
  by (induction js) auto

lemma settle_batch_trace:
  "requests (fst (settle_batch rp env T js c)) = []"
  "settled (fst (settle_batch rp env T js c)) = length js"
  "resolved (fst (settle_batch rp env T js c)) = length (filter (resolves env) js)"
  "snd (settle_batch rp env T js c) = c + length (filter (resolves env) js)"
  "per_chunk_reports (fst (settle_batch rp env T js c) @ es) = per_chunk_reports es"
  "list_all (percentage_ok rp) (progress_reports (fst (settle_batch rp env T js c)))"
  by (induction js arbitrary: c) (auto simp: case_prod_beta)

lemma settle_batch_currents:
  "map pg_current (filter (\<lambda>p. pg_state p = Synthesizing)
       (progress_reports (fst (settle_batch rp env T js c))))
     = [Suc c ..< Suc (c + length (filter (resolves env) js))]"
proof (induction js arbitrary: c)
  case Nil
  then show ?case by simp
next
  case (Cons j js)
  show ?case
  proof (cases "resolves env j")
    case True
    have "[Suc c ..< Suc (Suc (c + length (filter (resolves env) js)))]
            = Suc c # [Suc (Suc c) ..< Suc (Suc (c + length (filter (resolves env) js)))]"
      by (rule upt_conv_Cons) simp
    with True Cons[of "c + 1"] show ?thesis by (simp add: case_prod_beta del: upt_Suc)
  next
    case False
    with Cons[of c] show ?thesis by (simp add: case_prod_beta)
  qed
qed

section \<open>Facts about the synthesis loop\<close>

declare synth_loop.simps [simp del]


lemma synth_loop_batch:
  assumes "i < length ts" and "\<not> aborted_at env i" and "paused_polls env i = Some n"
  shows "synth_loop rp env ts i c =
     (replicate n Poll
        @ map (\<lambda>j. Request j (ts ! j)) [i ..< min (i + BATCH_SIZE) (length ts)]
        @ fst (settle_batch rp env (length ts)
                 (settle_order env [i ..< min (i + BATCH_SIZE) (length ts)]) c)
        @ fst (if length (settle_order env [i ..< min (i + BATCH_SIZE) (length ts)])
                    < length [i ..< min (i + BATCH_SIZE) (length ts)]
               then ([], Blocked)
               else synth_loop rp env ts (i + BATCH_SIZE)
                      (snd (settle_batch rp env (length ts)
                              (settle_order env [i ..< min (i + BATCH_SIZE) (length ts)]) c))),
      snd (if length (settle_order env [i ..< min (i + BATCH_SIZE) (length ts)])
                  < length [i ..< min (i + BATCH_SIZE) (length ts)]
           then ([], Blocked)
           else synth_loop rp env ts (i + BATCH_SIZE)
                  (snd (settle_batch rp env (length ts)
                          (settle_order env [i ..< min (i + BATCH_SIZE) (length ts)]) c))))"
  using assms by (subst synth_loop.simps) (simp add: Let_def case_prod_beta)

lemma synth_loop_stop:
  "\<not> i < length ts \<Longrightarrow>
     synth_loop rp env ts i c =
       ([Progress (updateProgress rp Completed (length ts) (length ts)
            (''Successfully pre-cached '' @ dec (length ts) @ '' chunks!'') None)], Returned)"
  "i < length ts \<Longrightarrow> aborted_at env i \<Longrightarrow>
     synth_loop rp env ts i c =
       ([Progress (updateProgress rp Cancelled c (length ts) ''Pre-caching cancelled'' None)], Returned)"
  "i < length ts \<Longrightarrow> \<not> aborted_at env i \<Longrightarrow> paused_polls env i = None \<Longrightarrow>
     synth_loop rp env ts i c = ([], Blocked)"
  by (subst synth_loop.simps, simp add: Let_def)+

lemma synth_loop_cases:
  obtains (finished) "\<not> i < length ts"
  | (cancelled) "i < length ts" "aborted_at env i"
  | (blocked) "i < length ts" "\<not> aborted_at env i" "paused_polls env i = None"
  | (batch) n where "i < length ts" "\<not> aborted_at env i" "paused_polls env i = Some n"
  by (cases "paused_polls env i") auto

lemma upt_split_sum:
  "[Suc c ..< Suc (c + k)] @ [Suc (c + k) ..< Suc (c + k + r)] = [Suc c ..< Suc (c + (k + r))]"
proof -
  have "[Suc c ..< Suc (c + k) + r] = [Suc c ..< Suc (c + k)] @ [Suc (c + k) ..< Suc (c + k) + r]"
    by (rule upt_add_eq_append) simp
  then show ?thesis by (simp add: add.assoc del: upt_Suc)
qed

lemma synth_loop_reports:
  "per_chunk_reports (fst (synth_loop rp env ts i c))
   \<and> list_all (percentage_ok rp) (progress_reports (fst (synth_loop rp env ts i c)))
   \<and> map pg_current (filter (\<lambda>p. pg_state p = Synthesizing)
          (progress_reports (fst (synth_loop rp env ts i c))))
       = [Suc c ..< Suc (c + resolved (fst (synth_loop rp env ts i c)))]"
proof (induction "length ts - i" arbitrary: i c rule: less_induct)
  case less
  show ?case
  proof (cases rule: synth_loop_cases[where i = i and ts = ts and env = env])
    case finished
    then show ?thesis by (simp add: synth_loop_stop)
  next
    case cancelled
    then show ?thesis by (simp add: synth_loop_stop)
  next
    case blocked
    then show ?thesis by (simp add: synth_loop_stop)
  next
    case (batch n)
    let ?idxs = "[i ..< min (i + BATCH_SIZE) (length ts)]"
    let ?js = "settle_order env ?idxs"
    let ?sb = "settle_batch rp env (length ts) ?js c"
    show ?thesis
    proof (cases "length ?js < length ?idxs")
      case True
      have "synth_loop rp env ts i c
              = (replicate n Poll @ map (\<lambda>j. Request j (ts ! j)) ?idxs @ fst ?sb, Blocked)"
        unfolding synth_loop_batch[OF batch] by (simp only: True if_True fst_conv snd_conv append_Nil2)
      moreover have "per_chunk_reports (fst ?sb)"
        using settle_batch_trace(5)[of rp env "length ts" ?js c "[]"] by simp
      ultimately show ?thesis
        by (simp add: settle_batch_trace settle_batch_currents del: upt_Suc)
    next
      case False
      have "length ts - (i + BATCH_SIZE) < length ts - i"
        using batch(1) by (simp add: BATCH_SIZE_def)
      note IH = less[OF this, of "snd ?sb"]
      have "fst (synth_loop rp env ts i c)
              = replicate n Poll @ map (\<lambda>j. Request j (ts ! j)) ?idxs @ fst ?sb
                  @ fst (synth_loop rp env ts (i + BATCH_SIZE) (snd ?sb))"
        unfolding synth_loop_batch[OF batch] by (simp only: False if_False fst_conv)
      with IH show ?thesis
        by (simp add: settle_batch_trace settle_batch_currents upt_split_sum del: upt_Suc)
    qed
  qed
qed









lemma preCacheBook_percentages:
  "list_all (percentage_ok rp) (progress_reports (fst (preCacheBook rp env extracted checkCachedTexts)))"
  using synth_loop_reports[of rp env]
  by (simp add: preCacheBook_def Let_def case_prod_beta split: sum.splits)

section \<open>Facts about clearing\<close>

lemma replace_first_subset: "set (replace_first pat [] s) \<subseteq> set s"
proof (induction s)
  case Nil
  then show ?case by simp
next
  case (Cons c cs)
  have "set (drop (length pat) (c # cs)) \<subseteq> set (c # cs)" by (rule set_drop_subset)
  with Cons show ?case by auto
qed

lemma endsWith_split: "endsWith f suf \<Longrightarrow> \<exists>k. f = k @ suf"
  by (metis append_take_drop_id endsWith_def)

lemma path_join_plain_name: "plain_name s \<Longrightarrow> path_join base (segs @ [s]) = path_join base segs @ [s]"
  by (simp add: path_join_def plain_name_def split_on_plain)

lemma audio_file_path:
  assumes "CHR ''/'' \<notin> set f" and "endsWith f ''.mp3''"
  shows "path_join base [f] = base @ [f]"
proof -
  from assms(2) obtain k where k: "f = k @ ''.mp3''" using endsWith_split by blast
  with assms(1) path_join_plain_file[of k "''.mp3''" base "[]"] show ?thesis
    by (simp add: path_join_def)
qed

lemma stats_meta_file_path:
  assumes "CHR ''/'' \<notin> set f"
  shows "stats_getMetadataFilePath h (replace_first ''.mp3'' [] f)
           = CACHE_DIR h @ [replace_first ''.mp3'' [] f @ ''.meta.json'']"
proof -
  from assms replace_first_subset[of "''.mp3''" f]
  have "CHR ''/'' \<notin> set (replace_first ''.mp3'' [] f @ ''.meta.json'')" by auto
  from path_join_plain_file[OF this, of "CACHE_DIR h" "[]"] show ?thesis
    by (simp add: stats_getMetadataFilePath_def path_join_def)
qed

lemma clear_loop_frame:
  assumes "\<forall>f\<in>set files. CHR ''/'' \<notin> set f \<and> endsWith f ''.mp3''"
    and "length p \<noteq> length (CACHE_DIR h) + 1"
  shows "lookup (fst (clear_loop h body files (fs, n, sz))) p = lookup fs p"
  using assms(1)
proof (induction files arbitrary: fs n sz)
  case Nil
  then show ?case by simp
next
  case (Cons f files)
  let ?ap = "path_join (CACHE_DIR h) [f]"
  let ?mp = "stats_getMetadataFilePath h (replace_first ''.mp3'' [] f)"
  from Cons(2) have f: "CHR ''/'' \<notin> set f" "endsWith f ''.mp3''" by simp_all
  have ap: "?ap \<noteq> p" using audio_file_path[OF f, of "CACHE_DIR h"] assms(2) by auto
  have mp: "?mp \<noteq> p" using stats_meta_file_path[OF f(1), of h] assms(2) by auto
  from Cons(2) have rest: "\<forall>f\<in>set files. CHR ''/'' \<notin> set f \<and> endsWith f ''.mp3''" by simp
  let ?st = "if shouldDelete h fs body ?mp then
              (case stat h fs ?ap of
                 Inl err \<Rightarrow> (fs, n, sz)
               | Inr (s, isdir) \<Rightarrow>
                  (case unlink fs ?ap of
                     Inl err \<Rightarrow> (fs, n, sz + s)
                   | Inr fs' \<Rightarrow>
                      ((case unlink fs' ?mp of Inl err \<Rightarrow> fs' | Inr fs'' \<Rightarrow> fs''),
                       n + 1, sz + s)))
            else (fs, n, sz)"
  have step: "lookup (fst ?st) p = lookup fs p"
    using ap mp by (auto split: sum.splits prod.splits simp: unlink_lookup)
  obtain fs1 n1 sz1 where st: "?st = (fs1, n1, sz1)" by (cases ?st) auto
  have "clear_loop h body (f # files) (fs, n, sz) = clear_loop h body files ?st"
    by (simp add: Let_def)
  with Cons(1)[OF rest, of fs1 n1 sz1] step st show ?case by simp
qed

lemma mkdirs_keys:
  "mkdirs base ds fs = Inr fs' \<Longrightarrow> q \<in> set (map fst fs') \<Longrightarrow>
     q \<in> set (map fst fs) \<or> length q \<le> length base + length ds"
proof (induction base ds fs rule: mkdirs.induct)
  case (1 base fs)
  then show ?case by simp
next
  case (2 base d ds fs)
  show ?case
  proof (cases "lookup fs (base @ [d])")
    case None
    let ?fs1 = "AList.update (base @ [d]) Dir fs"
    from 2(3) None have run: "mkdirs (base @ [d]) ds ?fs1 = Inr fs'" by simp
    from 2(1)[OF None run 2(4)]
    have "q \<in> set (map fst ?fs1) \<or> length q \<le> length base + length (d # ds)" by simp
    moreover have "set (map fst ?fs1) \<subseteq> insert (base @ [d]) (set (map fst fs))"
      by (auto simp: update_keys)
    ultimately show ?thesis by auto
  next
    case (Some nd)
    with 2 show ?thesis by (cases nd) auto
  qed
qed

lemma stats_POST_frame:
  assumes "plain_names fs" and "stats_POST h fs body = Inr (resp, fs')"
    and "length (CACHE_DIR h) + 1 < length p"
  shows "lookup fs' p = lookup fs p"
proof -
  let ?fs1 = "stats_ensureCacheDir h fs"
  have l1: "lookup ?fs1 p = lookup fs p"
    using assms(3) mkdir_recursive_changes[of fs "CACHE_DIR h" _ p]
    by (fastforce simp: stats_ensureCacheDir_def split: sum.splits)
  from assms(2) obtain files where rd: "readdir ?fs1 (CACHE_DIR h) = Inr files"
    and fs': "fs' = fst (clear_loop h body (filter (\<lambda>f. endsWith f ''.mp3'') files) (?fs1, 0, 0))"
    by (auto simp: stats_POST_def Let_def split: sum.splits prod.splits)
  have "CHR ''/'' \<notin> set f" if "f \<in> set files" for f
  proof -
    from that rd obtain q n where q: "(q, n) \<in> set ?fs1" "q \<noteq> []" "butlast q = CACHE_DIR h" "f = last q"
      by (auto simp: readdir_def split: option.splits node.splits)
    then have len: "length q = length (CACHE_DIR h) + 1"
      by (metis Suc_eq_plus1 append_butlast_last_id length_append_singleton)
    have "q \<in> set (map fst fs)"
    proof (cases "mkdir_recursive fs (CACHE_DIR h)")
      case (Inl e)
      with q(1) show ?thesis by (force simp: stats_ensureCacheDir_def)
    next
      case (Inr fs1)
      with q(1) have "q \<in> set (map fst fs1)" by (force simp: stats_ensureCacheDir_def)
      with mkdirs_keys[of "[]" "CACHE_DIR h" fs fs1 q] Inr len show ?thesis
        by (simp add: mkdir_recursive_def)
    qed
    with assms(1) have "list_all (\<lambda>c. CHR ''/'' \<notin> set c) q"
      by (auto simp: plain_names_def list_all_iff)
    with q(2,4) show ?thesis by (simp add: list_all_iff)
  qed
  then have "\<forall>f\<in>set (filter (\<lambda>f. endsWith f ''.mp3'') files). CHR ''/'' \<notin> set f \<and> endsWith f ''.mp3''"
    by simp
  from clear_loop_frame[OF this, of p h body ?fs1 0 0] assms(3) fs' l1 show ?thesis by simp
qed

lemma nested_path_length:
  assumes "plain_name b" and "plain_name v" and "CHR ''/'' \<notin> set k"
  shows "length (getCacheFilePath h b v k) = length (CACHE_DIR h) + 3"
proof -
  have "path_join (CACHE_DIR h) [b, v] = CACHE_DIR h @ [b, v]"
    using path_join_plain_name[OF assms(1), of "CACHE_DIR h" "[]"]
      path_join_plain_name[OF assms(2), of "CACHE_DIR h" "[b]"]
    by (simp add: path_join_def)
  then show ?thesis by (simp add: nested_path_plain(1)[OF assms(3)])
qed

section \<open>The cache key\<close>

text \<open>
  Claim C5. \<^verbatim>\<open>generateCacheKey\<close> is a function of the text and the voice that is defined
  on every input, the empty text included (there the key is the digest of the voice
  alone), and texts that differ only in the length of white space runs or in white space
  at either end have the same key; in particular the texts \<^verbatim>\<open>"a  b"\<close>, \<^verbatim>\<open>"a b"\<close> and
  \<^verbatim>\<open>" a b "\<close> do. This holds for every digest function.
\<close>

theorem generateCacheKey_whitespace_invariant:
  "(ws_variant t1 t2 \<longrightarrow> generateCacheKey h t1 v = generateCacheKey h t2 v)
   \<and> generateCacheKey h ''a  b'' v = generateCacheKey h ''a b'' v
   \<and> generateCacheKey h ''a b'' v = generateCacheKey h '' a b '' v
   \<and> generateCacheKey h [] v = md5_hex h v"
proof -
  have "ws_variant t1 t2 \<longrightarrow> generateCacheKey h t1 v = generateCacheKey h t2 v"
    by (simp add: generateCacheKey_def ws_variant_normalize)
  moreover have "normalize ''a  b'' = ''a b''" "normalize '' a b '' = ''a b''"
    "normalize ''a b'' = ''a b''" "normalize [] = []"
    by (simp_all add: normalize_def trim_def is_space_def)
  ultimately show ?thesis by (simp add: generateCacheKey_def)
qed

theorem generateCacheKey_whitespace_invariant_witness:
  "ws_variant ''a   b '' ''a b''
   \<and> generateCacheKey demo_host ''a   b '' ''V'' = generateCacheKey demo_host ''a b'' ''V''"
proof -
  have sp: "is_space CHR '' ''" by (simp add: is_space_def)
  have a: "ws_variant ''a   b '' ''a   b''"
    using ws_variant.trailing[OF sp, of "''a   b''"] by simp
  have b: "ws_variant ''a   b'' ''a  b''"
    using ws_variant.run[OF sp sp, of "''a''" "'' b''"] by simp
  have c: "ws_variant ''a  b'' ''a b''"
    using ws_variant.run[OF sp sp, of "''a''" "''b''"] by simp
  have v: "ws_variant ''a   b '' ''a b''"
    by (rule ws_variant.chain[OF ws_variant.chain[OF a b] c])
  with generateCacheKey_whitespace_invariant[of "''a   b ''" "''a b''" demo_host "''V''"]
  show ?thesis by simp
qed

text \<open>
  Claim C10. The key is the digest of the normalised text directly followed by the
  voice, with nothing between them. So two pairs of text and voice whose concatenations
  coincide have the same key, as the text \<^verbatim>\<open>"ab"\<close> under the voice \<^verbatim>\<open>"c"\<close> and the text
  \<^verbatim>\<open>"a"\<close> under the voice \<^verbatim>\<open>"bc"\<close> do, and therefore the same legacy cache file.
\<close>

theorem generateCacheKey_concatenation_collision:
  "(normalize t1 @ v1 = normalize t2 @ v2 \<longrightarrow>
      generateCacheKey h t1 v1 = generateCacheKey h t2 v2
      \<and> getLegacyCacheFilePath h (generateCacheKey h t1 v1)
          = getLegacyCacheFilePath h (generateCacheKey h t2 v2))
   \<and> generateCacheKey h ''ab'' ''c'' = generateCacheKey h ''a'' ''bc''"
proof -
  have "normalize ''ab'' = ''ab''" "normalize ''a'' = ''a''"
    by (simp_all add: normalize_def trim_def is_space_def)
  then show ?thesis by (simp add: generateCacheKey_def)
qed

theorem generateCacheKey_concatenation_collision_witness:
  "normalize ''ab'' @ ''c'' = normalize ''a'' @ ''bc''
   \<and> ''ab'' \<noteq> ''a'' \<and> ''c'' \<noteq> ''bc''
   \<and> generateCacheKey demo_host ''ab'' ''c'' = generateCacheKey demo_host ''a'' ''bc''
   \<and> getLegacyCacheFilePath demo_host (generateCacheKey demo_host ''ab'' ''c'')
       = getLegacyCacheFilePath demo_host (generateCacheKey demo_host ''a'' ''bc'')"
proof -
  have n: "normalize ''ab'' @ ''c'' = normalize ''a'' @ ''bc''"
    by (simp add: normalize_def trim_def is_space_def)
  with generateCacheKey_concatenation_collision[of "''ab''" "''c''" "''a''" "''bc''" demo_host]
  show ?thesis by simp
qed

section \<open>The cache store\<close>

lemma cacheAudio_returns:
  assumes mk: "mkdir_recursive fs (path_join (CACHE_DIR h) [bookKey, voice]) = Inr fs1"
    and b: "bookKey \<noteq> []" and v: "voice \<noteq> []" and k: "CHR ''/'' \<notin> set cacheKey"
    and np: "lookup fs (getCacheFilePath h bookKey voice cacheKey) \<noteq> Some Dir"
    and nm: "lookup fs (getMetadataFilePath h bookKey voice cacheKey) \<noteq> Some Dir"
  shows "\<exists>fs'. cacheAudio h created lastUsed fs bookKey voice cacheKey audioBuffer metadata = Inr fs'"
proof -
  let ?dir = "path_join (CACHE_DIR h) [bookKey, voice]"
  let ?NP = "getCacheFilePath h bookKey voice cacheKey"
  let ?NM = "getMetadataFilePath h bookKey voice cacheKey"
  note pl = nested_path_plain[OF k]
  have fs1: "ensureCacheDir h fs (Some bookKey) (Some voice) = fs1"
    using mk b v by (simp add: ensureCacheDir_def)
  have d1: "lookup fs1 ?dir = Some Dir" using mk by (rule mkdir_recursive_target)
  have deeper: "lookup fs1 q = lookup fs q" if "length ?dir < length q" for q
    using ensureCacheDir_deeper[OF that b v, of fs] fs1 by simp
  have "lookup fs1 ?NP \<noteq> Some Dir" using deeper[of ?NP] np by (simp add: pl)
  moreover have "lookup fs1 (butlast ?NP) = Some Dir" using d1 by (simp add: pl)
  ultimately obtain fs2 where w1: "writeFile fs1 ?NP audioBuffer = Inr fs2"
    using writeFile_succeeds[of fs1 ?NP audioBuffer] by auto
  note l2 = writeFile_lookup[OF w1]
  have "lookup fs2 ?NM \<noteq> Some Dir"
    using l2[of ?NM] nested_paths_differ[of h bookKey voice cacheKey bookKey voice] deeper[of ?NM] nm
    by (simp add: pl)
  moreover have "lookup fs2 (butlast ?NM) = Some Dir" using l2[of ?dir] d1 by (simp add: pl)
  ultimately have "\<exists>fs3. writeFile fs2 ?NM js = Inr fs3" for js
    using writeFile_succeeds[of fs2 ?NM js] by auto
  then obtain fs3 where "writeFile fs2 ?NM
      (JSON_stringify h
         \<lparr> meta_text = or_empty (part_text metadata), meta_voice = or_empty (part_voice metadata),
           meta_size = length audioBuffer, meta_created = created, meta_lastUsed = lastUsed,
           meta_useCount = 1, meta_bookKey = part_bookKey metadata \<rparr>) = Inr fs3"
    by blast
  then show ?thesis using fs1 w1 by (simp add: cacheAudio_def Let_def)
qed

text \<open>
  Claim C9. Whatever the book, the voice, the key, the audio bytes and the metadata:
  when \<^verbatim>\<open>cacheAudio\<close> has returned, \<^verbatim>\<open>getCachedAudio\<close> for the same book, voice and key
  returns exactly the bytes written. (The metadata file, written second, is never the
  audio file: their names end differently.) And \<^verbatim>\<open>cacheAudio\<close> does return when the key is
  a plain file name, the directory of the book and voice exists or can be created, and
  no directory stands where the two files go.
\<close>

theorem cacheAudio_then_getCachedAudio:
  "(cacheAudio h created lastUsed fs bookKey voice cacheKey audioBuffer metadata = Inr fs'
      \<longrightarrow> getCachedAudio h fs' bookKey voice cacheKey = Inr audioBuffer)
   \<and> (mkdir_recursive fs (path_join (CACHE_DIR h) [bookKey, voice]) = Inr fs1
        \<and> bookKey \<noteq> [] \<and> voice \<noteq> [] \<and> CHR ''/'' \<notin> set cacheKey
        \<and> lookup fs (getCacheFilePath h bookKey voice cacheKey) \<noteq> Some Dir
        \<and> lookup fs (getMetadataFilePath h bookKey voice cacheKey) \<noteq> Some Dir
      \<longrightarrow> (case cacheAudio h created lastUsed fs bookKey voice cacheKey audioBuffer metadata of
             Inl x \<Rightarrow> False
           | Inr fs'' \<Rightarrow> getCachedAudio h fs'' bookKey voice cacheKey = Inr audioBuffer))"
proof -
  have rt: "getCachedAudio h fs2 bookKey voice cacheKey = Inr audioBuffer"
    if a: "cacheAudio h created lastUsed fs bookKey voice cacheKey audioBuffer metadata = Inr fs2"
    for fs2
  proof -
    let ?fs1 = "ensureCacheDir h fs (Some bookKey) (Some voice)"
    let ?np = "getCacheFilePath h bookKey voice cacheKey"
    let ?nm = "getMetadataFilePath h bookKey voice cacheKey"
    from a obtain fsa js where w1: "writeFile ?fs1 ?np audioBuffer = Inr fsa"
      and w2: "writeFile fsa ?nm js = Inr fs2"
      by (auto simp: cacheAudio_def Let_def split: sum.splits)
    from writeFile_lookup[OF w1, of ?np] have "lookup fsa ?np = Some (File audioBuffer)" by simp
    with writeFile_lookup[OF w2, of ?np] nested_paths_differ[of h bookKey voice cacheKey bookKey voice]
    have "lookup fs2 ?np = Some (File audioBuffer)" by simp
    then show ?thesis by (simp add: getCachedAudio_def readFile_def)
  qed
  show ?thesis
  proof (intro conjI impI)
    assume "cacheAudio h created lastUsed fs bookKey voice cacheKey audioBuffer metadata = Inr fs'"
    then show "getCachedAudio h fs' bookKey voice cacheKey = Inr audioBuffer" by (rule rt)
  next
    assume c: "mkdir_recursive fs (path_join (CACHE_DIR h) [bookKey, voice]) = Inr fs1
        \<and> bookKey \<noteq> [] \<and> voice \<noteq> [] \<and> CHR ''/'' \<notin> set cacheKey
        \<and> lookup fs (getCacheFilePath h bookKey voice cacheKey) \<noteq> Some Dir
        \<and> lookup fs (getMetadataFilePath h bookKey voice cacheKey) \<noteq> Some Dir"
    then obtain fs2
      where "cacheAudio h created lastUsed fs bookKey voice cacheKey audioBuffer metadata = Inr fs2"
      using cacheAudio_returns[of fs h bookKey voice fs1 cacheKey created lastUsed audioBuffer metadata]
      by blast
    with rt show "case cacheAudio h created lastUsed fs bookKey voice cacheKey audioBuffer metadata of
             Inl x \<Rightarrow> False
           | Inr fs'' \<Rightarrow> getCachedAudio h fs'' bookKey voice cacheKey = Inr audioBuffer"
      by simp
  qed
qed

theorem cacheAudio_then_getCachedAudio_witness:
  "mkdir_recursive demo_empty_store (path_join (CACHE_DIR demo_host) [''b00c'', ''V''])
     = Inr [([''srv''], Dir), ([''srv'', ''tts-cache''], Dir),
            ([''srv'', ''tts-cache'', ''b00c''], Dir), ([''srv'', ''tts-cache'', ''b00c'', ''V''], Dir)]
   \<and> CHR ''/'' \<notin> set ''486956''
   \<and> lookup demo_empty_store (getCacheFilePath demo_host ''b00c'' ''V'' ''486956'') = None
   \<and> lookup demo_empty_store (getMetadataFilePath demo_host ''b00c'' ''V'' ''486956'') = None
   \<and> cacheAudio demo_host ''t0'' ''t0'' demo_empty_store ''b00c'' ''V'' ''486956'' ''AUDIO''
        \<lparr> part_text = Some ''Hi'', part_voice = Some ''V'', part_bookKey = Some ''b00c'' \<rparr>
       = Inr demo_nested_store
   \<and> getCachedAudio demo_host demo_nested_store ''b00c'' ''V'' ''486956'' = Inr ''AUDIO''"
proof -
  have m: "mkdir_recursive demo_empty_store (path_join (CACHE_DIR demo_host) [''b00c'', ''V''])
     = Inr [([''srv''], Dir), ([''srv'', ''tts-cache''], Dir),
            ([''srv'', ''tts-cache'', ''b00c''], Dir), ([''srv'', ''tts-cache'', ''b00c'', ''V''], Dir)]"
    by code_simp
  have l: "lookup demo_empty_store (getCacheFilePath demo_host ''b00c'' ''V'' ''486956'') = None"
    "lookup demo_empty_store (getMetadataFilePath demo_host ''b00c'' ''V'' ''486956'') = None"
    by code_simp+
  have w: "cacheAudio demo_host ''t0'' ''t0'' demo_empty_store ''b00c'' ''V'' ''486956'' ''AUDIO''
      \<lparr> part_text = Some ''Hi'', part_voice = Some ''V'', part_bookKey = Some ''b00c'' \<rparr>
     = Inr demo_nested_store"
    by code_simp
  from cacheAudio_then_getCachedAudio[where h = demo_host and fs = demo_empty_store
      and bookKey = "''b00c''" and voice = "''V''" and cacheKey = "''486956''"
      and audioBuffer = "''AUDIO''" and created = "''t0''" and lastUsed = "''t0''"
      and metadata = "\<lparr> part_text = Some ''Hi'', part_voice = Some ''V'', part_bookKey = Some ''b00c'' \<rparr>"
      and fs' = demo_nested_store] m l w
  show ?thesis by simp
qed

text \<open>
  Claim C8. \<^verbatim>\<open>updateMetadata\<close> never throws, and reading the audio of the entry gives the
  same result after it as before, whatever the state of the metadata file; when the
  metadata file is missing or does not parse, the call changes nothing at all.
\<close>

theorem updateMetadata_never_blocks_audio:
  "(case updateMetadata h now fs bookKey voice cacheKey of
      Inl err \<Rightarrow> False
    | Inr fs' \<Rightarrow>
        getCachedAudio h fs' bookKey voice cacheKey = getCachedAudio h fs bookKey voice cacheKey
        \<and> (metadata_unreadable h fs bookKey voice cacheKey \<longrightarrow> fs' = fs))"
proof (cases "updateMetadata_try h now fs bookKey voice cacheKey")
  case (Inl err)
  then show ?thesis by (simp add: updateMetadata_def)
next
  case (Inr fs')
  let ?nm = "getMetadataFilePath h bookKey voice cacheKey"
  from Inr obtain data meta js where rd: "readFile fs ?nm = Inr data"
    and ps: "JSON_parse h data = Some meta" and w: "writeFile fs ?nm js = Inr fs'"
    by (auto simp: updateMetadata_try_def Let_def split: sum.splits option.splits)
  from rd ps have "\<not> metadata_unreadable h fs bookKey voice cacheKey"
    by (simp add: metadata_unreadable_def)
  moreover from writeFile_lookup[OF w, of "getCacheFilePath h bookKey voice cacheKey"]
    nested_paths_differ[of h bookKey voice cacheKey bookKey voice]
  have "getCachedAudio h fs' bookKey voice cacheKey = getCachedAudio h fs bookKey voice cacheKey"
    by (simp add: getCachedAudio_def readFile_def)
  ultimately show ?thesis using Inr by (simp add: updateMetadata_def)
qed


theorem updateMetadata_never_blocks_audio_witness:
  "metadata_unreadable demo_host demo_corrupt_store ''b00c'' ''V'' ''486956''
   \<and> updateMetadata demo_host ''t1'' demo_corrupt_store ''b00c'' ''V'' ''486956'' = Inr demo_corrupt_store
   \<and> getCachedAudio demo_host demo_corrupt_store ''b00c'' ''V'' ''486956'' = Inr ''AUDIO''"
proof -
  have u: "metadata_unreadable demo_host demo_corrupt_store ''b00c'' ''V'' ''486956''"
    by code_simp
  have r: "getCachedAudio demo_host demo_corrupt_store ''b00c'' ''V'' ''486956'' = Inr ''AUDIO''"
    by code_simp
  from updateMetadata_never_blocks_audio[where h = demo_host and now = "''t1''"
      and fs = demo_corrupt_store and bookKey = "''b00c''" and voice = "''V''" and cacheKey = "''486956''"] u r
  show ?thesis by (auto split: sum.splits)
qed

section \<open>Migration from the legacy layout\<close>

text \<open>
  Claim C4 fails as stated: \<^verbatim>\<open>migrateCacheFile\<close> reads and unlinks the legacy audio outside
  any inner \<^verbatim>\<open>try\<close>, and its outer \<^verbatim>\<open>catch\<close> rethrows. After a completed migration the
  legacy audio is gone, so a second invocation for the same key throws \<^verbatim>\<open>ENOENT\<close>.
\<close>

theorem migrateCacheFile_second_invocation_throws:
  "migrateCacheFile demo_host demo_legacy_store ''b00c'' ''V'' ''486956'' = Inr demo_nested_store
   \<and> migrateCacheFile demo_host demo_nested_store ''b00c'' ''V'' ''486956''
       = Inl (ENOENT, demo_nested_store)"
  by code_simp

text \<open>
  Claim C4, amended. Take a legacy audio file, a book and a voice that are not empty, a key
  without a slash, and a nested directory that exists or can be created; let the nested
  audio path be another path than the legacy audio path, with no directory standing at
  it. Then \<^verbatim>\<open>migrateCacheFile\<close> returns. Afterwards the nested audio file holds the legacy
  audio (a file that was there is overwritten), and the legacy audio file and the legacy
  metadata file are gone. The metadata is copied when there is a legacy metadata file and
  no directory stands at the nested metadata path. When a directory stands there, the
  copy fails, the failure is swallowed, and the legacy metadata file is deleted all the
  same. Without a legacy metadata file the nested metadata path keeps what it had. A
  second invocation after this one throws: the legacy audio file is read outside the
  inner \<^verbatim>\<open>try\<close> blocks, and it is gone.
\<close>

theorem migrateCacheFile_copies_then_deletes:
  assumes "lookup fs (getLegacyCacheFilePath h k) = Some (File audio)"
    and "lookup fs (getCacheFilePath h b v k) \<noteq> Some Dir"
    and "getCacheFilePath h b v k \<noteq> getLegacyCacheFilePath h k"
    and "b \<noteq> []" and "v \<noteq> []" and "CHR ''/'' \<notin> set k"
    and "mkdir_recursive fs (path_join (CACHE_DIR h) [b, v]) = Inr fs1"
  shows "case migrateCacheFile h fs b v k of
           Inl x \<Rightarrow> False
         | Inr fs' \<Rightarrow>
             lookup fs' (getCacheFilePath h b v k) = Some (File audio)
             \<and> lookup fs' (getLegacyCacheFilePath h k) = None
             \<and> (\<forall>c. lookup fs' (getLegacyMetadataFilePath h k) \<noteq> Some (File c))
             \<and> lookup fs' (getMetadataFilePath h b v k)
                 = (case lookup fs (getLegacyMetadataFilePath h k) of
                      Some (File m) \<Rightarrow>
                        (if lookup fs (getMetadataFilePath h b v k) = Some Dir then Some Dir
                         else Some (File m))
                    | _ \<Rightarrow> lookup fs (getMetadataFilePath h b v k))
             \<and> (case migrateCacheFile h fs' b v k of Inl x \<Rightarrow> True | Inr fs'' \<Rightarrow> False)"
proof -
  from migrateCacheFile_legacy_only[OF assms] obtain fs'
    where r: "migrateCacheFile h fs b v k = Inr fs'"
      and p: "lookup fs' (getCacheFilePath h b v k) = Some (File audio)"
        "lookup fs' (getLegacyCacheFilePath h k) = None"
        "\<forall>c. lookup fs' (getLegacyMetadataFilePath h k) \<noteq> Some (File c)"
        "lookup fs' (getMetadataFilePath h b v k)
           = (case lookup fs (getLegacyMetadataFilePath h k) of
                Some (File m) \<Rightarrow>
                  (if lookup fs (getMetadataFilePath h b v k) = Some Dir then Some Dir
                   else Some (File m))
              | _ \<Rightarrow> lookup fs (getMetadataFilePath h b v k))"
    by blast
  from p(2) have "\<forall>c. lookup fs' (getLegacyCacheFilePath h k) \<noteq> Some (File c)" by simp
  from migrateCacheFile_without_legacy_audio[OF this, of b v]
  have "case migrateCacheFile h fs' b v k of Inl x \<Rightarrow> True | Inr fs'' \<Rightarrow> False" by auto
  with r p show ?thesis by simp
qed

text \<open>
  The store \<open>demo_stale_store\<close> holds the legacy entry, an older file at the nested audio
  path and a directory at the nested metadata path. The migration returns; the nested
  audio is overwritten, the metadata is not copied, and both legacy files are deleted.
\<close>

theorem migrateCacheFile_copies_then_deletes_witness:
  "lookup demo_stale_store (getLegacyCacheFilePath demo_host ''486956'') = Some (File ''AUDIO'')
   \<and> lookup demo_stale_store (getLegacyMetadataFilePath demo_host ''486956'')
       = Some (File demo_meta)
   \<and> lookup demo_stale_store (getCacheFilePath demo_host ''b00c'' ''V'' ''486956'')
       = Some (File ''OLD'')
   \<and> lookup demo_stale_store (getMetadataFilePath demo_host ''b00c'' ''V'' ''486956'') = Some Dir
   \<and> getCacheFilePath demo_host ''b00c'' ''V'' ''486956''
       \<noteq> getLegacyCacheFilePath demo_host ''486956''
   \<and> CHR ''/'' \<notin> set ''486956''
   \<and> mkdir_recursive demo_stale_store (path_join (CACHE_DIR demo_host) [''b00c'', ''V''])
       = Inr demo_stale_store
   \<and> migrateCacheFile demo_host demo_stale_store ''b00c'' ''V'' ''486956''
       = Inr demo_overwritten_store
   \<and> lookup demo_overwritten_store (getCacheFilePath demo_host ''b00c'' ''V'' ''486956'')
       = Some (File ''AUDIO'')
   \<and> lookup demo_overwritten_store (getMetadataFilePath demo_host ''b00c'' ''V'' ''486956'')
       = Some Dir
   \<and> lookup demo_overwritten_store (getLegacyCacheFilePath demo_host ''486956'') = None
   \<and> lookup demo_overwritten_store (getLegacyMetadataFilePath demo_host ''486956'') = None
   \<and> (case migrateCacheFile demo_host demo_overwritten_store ''b00c'' ''V'' ''486956'' of
         Inl x \<Rightarrow> True | Inr fs'' \<Rightarrow> False)"
proof -
  have h1: "lookup demo_stale_store (getLegacyCacheFilePath demo_host ''486956'') = Some (File ''AUDIO'')"
    by code_simp
  have old: "lookup demo_stale_store (getCacheFilePath demo_host ''b00c'' ''V'' ''486956'')
               = Some (File ''OLD'')"
    by code_simp
  then have h2: "lookup demo_stale_store (getCacheFilePath demo_host ''b00c'' ''V'' ''486956'') \<noteq> Some Dir"
    by simp
  have h3: "getCacheFilePath demo_host ''b00c'' ''V'' ''486956''
              \<noteq> getLegacyCacheFilePath demo_host ''486956''"
    by code_simp
  have h4: "''b00c'' \<noteq> []" "''V'' \<noteq> []" "CHR ''/'' \<notin> set ''486956''" by simp_all
  have h5: "mkdir_recursive demo_stale_store (path_join (CACHE_DIR demo_host) [''b00c'', ''V''])
              = Inr demo_stale_store"
    by code_simp
  have nm: "lookup demo_stale_store (getMetadataFilePath demo_host ''b00c'' ''V'' ''486956'') = Some Dir"
    by code_simp
  have lm: "lookup demo_stale_store (getLegacyMetadataFilePath demo_host ''486956'')
              = Some (File demo_meta)"
    by code_simp
  have r: "migrateCacheFile demo_host demo_stale_store ''b00c'' ''V'' ''486956''
             = Inr demo_overwritten_store"
    by code_simp
  have gone: "lookup demo_overwritten_store (getLegacyMetadataFilePath demo_host ''486956'') = None"
    by code_simp
  from migrateCacheFile_copies_then_deletes[OF h1 h2 h3 h4 h5] r nm lm
  have "lookup demo_overwritten_store (getCacheFilePath demo_host ''b00c'' ''V'' ''486956'')
          = Some (File ''AUDIO'')
        \<and> lookup demo_overwritten_store (getLegacyCacheFilePath demo_host ''486956'') = None
        \<and> lookup demo_overwritten_store (getMetadataFilePath demo_host ''b00c'' ''V'' ''486956'')
            = Some Dir
        \<and> (case migrateCacheFile demo_host demo_overwritten_store ''b00c'' ''V'' ''486956'' of
              Inl x \<Rightarrow> True | Inr fs'' \<Rightarrow> False)"
    by simp
  with h1 old nm lm h3 h4 h5 r gone show ?thesis by (intro conjI) simp_all
qed

text \<open>
  The book must not be empty. \<^verbatim>\<open>ensureCacheDir\<close> tests \<^verbatim>\<open>bookKey && voice\<close>, so for the empty
  book (the request's \<^verbatim>\<open>bookKey\<close> is \<^verbatim>\<open>-x\<close>, say) it creates the cache directory only, while
  \<^verbatim>\<open>path.join\<close> drops the empty segment and places the entry in the directory of the voice.
  That directory is not there, the write of the audio fails and \<^verbatim>\<open>migrateCacheFile\<close>
  throws, leaving the legacy entry where it was.
\<close>

lemma migrateCacheFile_empty_book_throws:
  "extractBookHash ''-x'' = []
   \<and> migrateCacheFile demo_host demo_legacy_store [] ''V'' ''486956''
       = Inl (ENOENT, demo_legacy_store)"
  by code_simp

text \<open>
  Claim C2 fails as stated: not every existence check upgrades the layout. The check
  route has an \<^verbatim>\<open>isCached\<close> of its own that only calls \<^verbatim>\<open>fs.access\<close>; for an entry present
  only in the legacy layout it answers true and the files stay where they are, however
  often it is asked, while the synthesis route's \<^verbatim>\<open>isCached\<close> moves them.
\<close>

theorem check_route_reports_without_migrating:
  "check_isCached demo_host demo_legacy_store (Some ''b00c'') ''V'' ''486956''
     = (True, demo_legacy_store)
   \<and> readFile demo_legacy_store (getLegacyCacheFilePath demo_host ''486956'') = Inr ''AUDIO''
   \<and> access demo_legacy_store (getCacheFilePath demo_host ''b00c'' ''V'' ''486956'') = Inl ENOENT
   \<and> isCached demo_host demo_legacy_store ''b00c'' ''V'' ''486956'' = (True, demo_nested_store)"
  by code_simp

text \<open>
  The existence check of the synthesis route does migrate, but it answers \<^verbatim>\<open>false\<close> for
  an entry that is present in the legacy layout when the migration throws, here because
  a file stands where the book's directory would have to be created.
\<close>

lemma isCached_false_when_migration_throws:
  "isCached demo_host (demo_legacy_store @ [([''srv'', ''tts-cache'', ''b00c''], File [])])
      ''b00c'' ''V'' ''486956''
     = (False, demo_legacy_store @ [([''srv'', ''tts-cache'', ''b00c''], File [])])"
  by code_simp

text \<open>
  Claim C2, amended. Take an entry present only in the legacy layout: its legacy audio
  file is there, and nothing is at its nested audio path or at its nested metadata path.
  Let the book and the voice be not empty, the key without a slash, and the nested
  directory one that exists or can be created. Then the first existence check of the
  synthesis route returns true and migrates the entry: afterwards the nested audio file
  holds the audio, the nested metadata file holds the legacy metadata if there was a
  legacy metadata file and is absent otherwise, and the legacy audio and metadata files
  are gone. A second check returns true and leaves the file system exactly as it is. The
  existence check of the check route returns true for the same entry and changes
  nothing.
\<close>

theorem isCached_upgrades_legacy_entry:
  assumes "lookup fs (getLegacyCacheFilePath h k) = Some (File audio)"
    and "lookup fs (getCacheFilePath h b v k) = None"
    and "lookup fs (getMetadataFilePath h b v k) = None"
    and "b \<noteq> []" and "v \<noteq> []" and "CHR ''/'' \<notin> set k"
    and "mkdir_recursive fs (path_join (CACHE_DIR h) [b, v]) = Inr fs1"
  shows "(case isCached h fs b v k of
            (cached, fs') \<Rightarrow>
              cached
              \<and> lookup fs' (getCacheFilePath h b v k) = Some (File audio)
              \<and> lookup fs' (getLegacyCacheFilePath h k) = None
              \<and> (\<forall>c. lookup fs' (getLegacyMetadataFilePath h k) \<noteq> Some (File c))
              \<and> lookup fs' (getMetadataFilePath h b v k)
                  = (case lookup fs (getLegacyMetadataFilePath h k) of
                       Some (File m) \<Rightarrow> Some (File m)
                     | _ \<Rightarrow> None)
              \<and> isCached h fs' b v k = (True, fs'))
         \<and> check_isCached h fs (Some b) v k = (True, fs)"
proof -
  from assms(2) have nd: "lookup fs (getCacheFilePath h b v k) \<noteq> Some Dir" by simp
  from assms(1,2) have ne: "getCacheFilePath h b v k \<noteq> getLegacyCacheFilePath h k" by auto
  from migrateCacheFile_legacy_only[OF assms(1) nd ne assms(4-7)] obtain fs'
    where r: "migrateCacheFile h fs b v k = Inr fs'"
      and p: "lookup fs' (getCacheFilePath h b v k) = Some (File audio)"
        "lookup fs' (getLegacyCacheFilePath h k) = None"
        "\<forall>c. lookup fs' (getLegacyMetadataFilePath h k) \<noteq> Some (File c)"
        "lookup fs' (getMetadataFilePath h b v k)
           = (case lookup fs (getLegacyMetadataFilePath h k) of
                Some (File m) \<Rightarrow>
                  (if lookup fs (getMetadataFilePath h b v k) = Some Dir then Some Dir
                   else Some (File m))
              | _ \<Rightarrow> lookup fs (getMetadataFilePath h b v k))"
    by blast
  have first: "isCached h fs b v k = (True, fs')"
    using assms(1,2) r by (simp add: isCached_def access_def)
  have second: "isCached h fs' b v k = (True, fs')"
    using p(1) by (simp add: isCached_def access_def)
  have chk: "check_isCached h fs (Some b) v k = (True, fs)"
    using assms(1) by (simp add: check_isCached_def access_def)
  have "lookup fs' (getMetadataFilePath h b v k)
          = (case lookup fs (getLegacyMetadataFilePath h k) of
               Some (File m) \<Rightarrow> Some (File m)
             | _ \<Rightarrow> None)"
    using p(4) assms(3) by (auto split: option.splits node.splits)
  with first second chk p(1-3) show ?thesis by simp
qed

theorem isCached_upgrades_legacy_entry_witness:
  "lookup demo_legacy_store (getLegacyCacheFilePath demo_host ''486956'') = Some (File ''AUDIO'')
   \<and> lookup demo_legacy_store (getCacheFilePath demo_host ''b00c'' ''V'' ''486956'') = None
   \<and> lookup demo_legacy_store (getMetadataFilePath demo_host ''b00c'' ''V'' ''486956'') = None
   \<and> CHR ''/'' \<notin> set ''486956''
   \<and> (case mkdir_recursive demo_legacy_store (path_join (CACHE_DIR demo_host) [''b00c'', ''V'']) of
         Inl e \<Rightarrow> False | Inr fs1 \<Rightarrow> True)
   \<and> isCached demo_host demo_legacy_store ''b00c'' ''V'' ''486956'' = (True, demo_nested_store)
   \<and> lookup demo_nested_store (getLegacyCacheFilePath demo_host ''486956'') = None
   \<and> isCached demo_host demo_nested_store ''b00c'' ''V'' ''486956'' = (True, demo_nested_store)
   \<and> check_isCached demo_host demo_legacy_store (Some ''b00c'') ''V'' ''486956''
       = (True, demo_legacy_store)"
proof -
  have h1: "lookup demo_legacy_store (getLegacyCacheFilePath demo_host ''486956'') = Some (File ''AUDIO'')"
    by code_simp
  have h2: "lookup demo_legacy_store (getCacheFilePath demo_host ''b00c'' ''V'' ''486956'') = None"
    by code_simp
  have h3: "lookup demo_legacy_store (getMetadataFilePath demo_host ''b00c'' ''V'' ''486956'') = None"
    by code_simp
  have h4: "''b00c'' \<noteq> []" "''V'' \<noteq> []" "CHR ''/'' \<notin> set ''486956''" by simp_all
  obtain fs1 where h5: "mkdir_recursive demo_legacy_store (path_join (CACHE_DIR demo_host) [''b00c'', ''V'']) = Inr fs1"
    by (cases "mkdir_recursive demo_legacy_store (path_join (CACHE_DIR demo_host) [''b00c'', ''V''])")
       (simp_all add: mkdir_recursive_def demo_host_def path_join_def lookup_def demo_legacy_store_def)
  have r: "isCached demo_host demo_legacy_store ''b00c'' ''V'' ''486956'' = (True, demo_nested_store)"
    by code_simp
  from isCached_upgrades_legacy_entry[OF h1 h2 h3 h4 h5] r h1 h2 h3 h4 h5
  show ?thesis by simp
qed

text \<open>
  For the empty book the check of the synthesis route does not migrate the same entry:
  the migration throws as shown above, the check answers \<^verbatim>\<open>false\<close>, and the legacy files
  stay. The check route answers \<^verbatim>\<open>true\<close>, since it looks at the legacy path only.
\<close>

lemma isCached_empty_book_answers_false:
  "isCached demo_host demo_legacy_store [] ''V'' ''486956'' = (False, demo_legacy_store)
   \<and> check_isCached demo_host demo_legacy_store (Some []) ''V'' ''486956''
       = (True, demo_legacy_store)"
  by code_simp

section \<open>Clearing the cache\<close>

text \<open>
  Claim C1 describes what clearing the cache has to do; the code does not do it for the
  layout in use. \<^verbatim>\<open>POST /stats\<close> lists the cache directory itself and looks at the \<^verbatim>\<open>.mp3\<close>
  files directly in it, which is where the legacy layout kept them. The entries that
  \<^verbatim>\<open>cacheAudio\<close> writes lie two directories deeper and are never visited. So in every
  cache state, for every filter, and for every book, voice and key that are plain names:
  after the request the audio file and the metadata file of that entry in the nested
  layout are what they were before. An entry of book B survives the clearing of book B
  and the clearing of everything, and the reported count does not include it.
\<close>

theorem stats_POST_leaves_nested_entries:
  assumes "plain_names fs" and "plain_name b" and "plain_name v" and "CHR ''/'' \<notin> set k"
    and "stats_POST h fs body = Inr (resp, fs')"
  shows "getCachedAudio h fs' b v k = getCachedAudio h fs b v k
         \<and> lookup fs' (getMetadataFilePath h b v k) = lookup fs (getMetadataFilePath h b v k)"
proof -
  have "path_join (CACHE_DIR h) [b, v] = CACHE_DIR h @ [b, v]"
    using path_join_plain_name[OF assms(2), of "CACHE_DIR h" "[]"]
      path_join_plain_name[OF assms(3), of "CACHE_DIR h" "[b]"]
    by (simp add: path_join_def)
  then have "length (CACHE_DIR h) + 1 < length (getCacheFilePath h b v k)"
    and "length (CACHE_DIR h) + 1 < length (getMetadataFilePath h b v k)"
    by (simp_all add: nested_path_plain[OF assms(4)])
  from stats_POST_frame[OF assms(1,5) this(1)] stats_POST_frame[OF assms(1,5) this(2)]
  show ?thesis by (simp add: getCachedAudio_def readFile_def)
qed

text \<open>
  The store that holds one entry of the book \<^verbatim>\<open>b00c\<close>, as \<^verbatim>\<open>cacheAudio\<close> wrote it: clearing
  that book deletes nothing and reports the count 0, and so does clearing everything. An
  entry of the same book in the legacy layout is deleted and counted.
\<close>

theorem stats_POST_leaves_nested_entries_witness:
  "plain_names demo_nested_store \<and> plain_name ''b00c'' \<and> plain_name ''V''
   \<and> CHR ''/'' \<notin> set ''486956''
   \<and> stats_POST demo_host demo_nested_store \<lparr> clear_bookKey = Some ''b00c'', clear_voice = None \<rparr>
     = Inr (\<lparr> resp_deletedCount = 0, resp_deletedSize = 0 \<rparr>, demo_nested_store)
   \<and> stats_POST demo_host demo_nested_store \<lparr> clear_bookKey = None, clear_voice = None \<rparr>
     = Inr (\<lparr> resp_deletedCount = 0, resp_deletedSize = 0 \<rparr>, demo_nested_store)
   \<and> getCachedAudio demo_host demo_nested_store ''b00c'' ''V'' ''486956'' = Inr ''AUDIO''
   \<and> stats_POST demo_host demo_legacy_store \<lparr> clear_bookKey = Some ''b00c'', clear_voice = None \<rparr>
     = Inr (\<lparr> resp_deletedCount = 1, resp_deletedSize = 5 \<rparr>, demo_empty_store)"
proof -
  have p: "plain_names demo_nested_store" "plain_name ''b00c''" "plain_name ''V''"
    "CHR ''/'' \<notin> set ''486956''"
    by code_simp+
  have r: "stats_POST demo_host demo_nested_store \<lparr> clear_bookKey = Some ''b00c'', clear_voice = None \<rparr>
     = Inr (\<lparr> resp_deletedCount = 0, resp_deletedSize = 0 \<rparr>, demo_nested_store)"
    by code_simp
  have a: "stats_POST demo_host demo_nested_store \<lparr> clear_bookKey = None, clear_voice = None \<rparr>
     = Inr (\<lparr> resp_deletedCount = 0, resp_deletedSize = 0 \<rparr>, demo_nested_store)"
    by code_simp
  have l: "stats_POST demo_host demo_legacy_store \<lparr> clear_bookKey = Some ''b00c'', clear_voice = None \<rparr>
     = Inr (\<lparr> resp_deletedCount = 1, resp_deletedSize = 5 \<rparr>, demo_empty_store)"
    by code_simp
  have g: "getCachedAudio demo_host demo_nested_store ''b00c'' ''V'' ''486956'' = Inr ''AUDIO''"
    by code_simp
  from stats_POST_leaves_nested_entries[OF p r] p r a l g show ?thesis by simp
qed

section \<open>The bulk cache check\<close>

lemma audio_path_absent:
  assumes "no_audio_files fs"
  shows "lookup fs (path_join base (segs @ [k @ ''.mp3''])) = None"
proof -
  let ?p = "path_join base (segs @ [k @ ''.mp3''])"
  let ?c = "last (split_on CHR ''/'' k) @ ''.mp3''"
  have p: "?p = file_dir base segs k @ [?c]" by (simp add: path_join_file)
  have e: "endsWith ?c ''.mp3''" by (simp add: endsWith_def)
  show ?thesis
  proof (cases "map_of fs ?p")
    case None
    then show ?thesis using p by (simp add: lookup_def)
  next
    case (Some n)
    then have "(?p, n) \<in> set fs" by (rule map_of_SomeD)
    with assms have "?p = [] \<or> \<not> endsWith (last ?p) ''.mp3''"
      by (auto simp: no_audio_files_def list_all_iff)
    with p e show ?thesis by simp
  qed
qed

lemma check_isCached_empty_store:
  assumes "no_audio_files fs"
  shows "check_isCached h fs bk v k = (False, fs)"
proof -
  have "lookup fs (path_join (CACHE_DIR h) [the bk, v, k @ ''.mp3'']) = None"
    using audio_path_absent[OF assms, of "CACHE_DIR h" "[the bk, v]" k] by simp
  moreover have "lookup fs (path_join (CACHE_DIR h) [k @ ''.mp3'']) = None"
    using audio_path_absent[OF assms, of "CACHE_DIR h" "[]" k] by simp
  ultimately show ?thesis
    by (simp add: check_isCached_def check_getCacheFilePath_def getLegacyCacheFilePath_def access_def)
qed

text \<open>
  Claim C6 fails as stated: for the chunks \<^verbatim>\<open>"Hello world"\<close>, \<^verbatim>\<open>"Hello   world"\<close> and
  \<^verbatim>\<open>"Goodbye"\<close> the check against an empty store reports 0 cached out of 3, not out of 2.
  The extractor drops a chunk only when the same trimmed text was seen before, and the
  check route answers for every text it is sent.
\<close>

theorem check_POST_total_is_three:
  "add_marks [] [Some ''Hello world'', Some ''Hello   world'', Some ''Goodbye'']
     = [''Hello world'', ''Hello   world'', ''Goodbye'']
   \<and> (case check_POST demo_host demo_empty_store
            \<lparr> req_texts = [''Hello world'', ''Hello   world'', ''Goodbye''], req_voice = ''V'',
              req_bookKey = Some ''b00c-7'' \<rparr> of
         Inl status \<Rightarrow> False
       | Inr r \<Rightarrow>
           map res_text (results r) = [''Hello world'', ''Hello   world'', ''Goodbye'']
           \<and> map res_cached (results r) = [False, False, False]
           \<and> cachedCount r = 0 \<and> totalCount r = 3)"
  by code_simp

text \<open>
  Claim C6, amended. When the extractor yields the chunks \<^verbatim>\<open>"Hello world"\<close>,
  \<^verbatim>\<open>"Hello   world"\<close> and \<^verbatim>\<open>"Goodbye"\<close> (its duplicate test keeps all three), the bulk check
  against a store without audio reports 0 cached out of a total of 3: the total is the
  number of texts sent, whatever the voice and the book. White space normalisation gives
  the first two chunks the same cache key; it removes neither from the count.
\<close>

theorem check_POST_counts_every_text:
  assumes "no_audio_files fs" and "v \<noteq> []"
  shows "(case check_POST h fs \<lparr> req_texts = ts, req_voice = v, req_bookKey = bk \<rparr> of
            Inl status \<Rightarrow> False
          | Inr r \<Rightarrow> cachedCount r = 0 \<and> totalCount r = length ts)
         \<and> add_marks [] [Some ''Hello world'', Some ''Hello   world'', Some ''Goodbye'']
             = [''Hello world'', ''Hello   world'', ''Goodbye'']
         \<and> generateCacheKey h ''Hello world'' v = generateCacheKey h ''Hello   world'' v"
proof -
  have n: "normalize ''Hello world'' = normalize ''Hello   world''"
    by (simp add: normalize_def trim_def is_space_def)
  have m: "add_marks [] [Some ''Hello world'', Some ''Hello   world'', Some ''Goodbye'']
             = [''Hello world'', ''Hello   world'', ''Goodbye'']"
    by (simp add: trim_def is_space_def)
  have "case check_POST h fs \<lparr> req_texts = ts, req_voice = v, req_bookKey = bk \<rparr> of
            Inl status \<Rightarrow> False
          | Inr r \<Rightarrow> cachedCount r = 0 \<and> totalCount r = length ts"
    using assms(2) check_isCached_empty_store[OF assms(1)]
    by (simp add: check_POST_def Let_def o_def)
  with n m show ?thesis by (simp add: generateCacheKey_def)
qed

theorem check_POST_counts_every_text_witness:
  "no_audio_files demo_empty_store \<and> ''V'' \<noteq> []
   \<and> (case check_POST demo_host demo_empty_store
            \<lparr> req_texts = [''Hello world'', ''Hello   world'', ''Goodbye''], req_voice = ''V'',
              req_bookKey = Some ''b00c-7'' \<rparr> of
         Inl status \<Rightarrow> False
       | Inr r \<Rightarrow> cachedCount r = 0 \<and> totalCount r = 3)"
proof -
  have e: "no_audio_files demo_empty_store"
    by (simp add: no_audio_files_def endsWith_def demo_empty_store_def)
  have v: "''V'' \<noteq> []" by simp
  from check_POST_counts_every_text[OF e v, where h = demo_host
      and ts = "[''Hello world'', ''Hello   world'', ''Goodbye'']" and bk = "Some ''b00c-7''"]
  have "case check_POST demo_host demo_empty_store
            \<lparr> req_texts = [''Hello world'', ''Hello   world'', ''Goodbye''], req_voice = ''V'',
              req_bookKey = Some ''b00c-7'' \<rparr> of
         Inl status \<Rightarrow> False
       | Inr r \<Rightarrow> cachedCount r = 0 \<and> totalCount r = length [''Hello world'', ''Hello   world'', ''Goodbye'']"
    by (rule conjunct1)
  then have "case check_POST demo_host demo_empty_store
            \<lparr> req_texts = [''Hello world'', ''Hello   world'', ''Goodbye''], req_voice = ''V'',
              req_bookKey = Some ''b00c-7'' \<rparr> of
         Inl status \<Rightarrow> False
       | Inr r \<Rightarrow> cachedCount r = 0 \<and> totalCount r = 3"
    by (auto split: sum.splits)
  with e v show ?thesis by (intro conjI)
qed

section \<open>The pre-cache job\<close>

text \<open>
  Claim C3 fails as stated: the progress callback of the synthesizing phase is not called
  once after each batch. It is called in the \<^verbatim>\<open>then\<close> callback of every request that
  resolves, so a batch of two chunks that both resolve produces two reports, each right
  after its chunk, and none after the batch as a whole.
\<close>

theorem progress_is_reported_per_chunk:
  "fst (synth_loop exact_round_percent demo_env [''a'', ''b''] 0 0)
     = [Request 0 ''a'', Request 1 ''b'',
        Settled 0 True,
        Progress \<lparr> pg_state = Synthesizing, pg_current = 1, pg_total = 2, pg_percentage = 50,
                   pg_message = ''Synthesized 1/2 chunks...'', pg_error = None \<rparr>,
        Settled 1 True,
        Progress \<lparr> pg_state = Synthesizing, pg_current = 2, pg_total = 2, pg_percentage = 100,
                   pg_message = ''Synthesized 2/2 chunks...'', pg_error = None \<rparr>,
        Progress \<lparr> pg_state = Completed, pg_current = 2, pg_total = 2, pg_percentage = 100,
                   pg_message = ''Successfully pre-cached 2 chunks!'', pg_error = None \<rparr>]"
  by code_simp

text \<open>
  Claim C3, amended. In the synthesis loop the progress callback is called once for every
  request that resolves, directly when it resolves, and not for a request that is
  rejected; these are the only reports in the state \<^verbatim>\<open>synthesizing\<close>, and their \<^verbatim>\<open>current\<close>
  counts up by one from the number completed before. Every report of a run of
  \<^verbatim>\<open>preCacheBook\<close> carries the percentage \<^verbatim>\<open>Math.round((current / total) * 100)\<close>, and 0 when
  the total is 0; computed without rounding errors, that is the integer nearest to
  \<open>100 * current / total\<close>.
\<close>

theorem progress_reports_follow_resolved_requests:
  "per_chunk_reports (fst (synth_loop rp env ts i c))
   \<and> map pg_current (filter (\<lambda>p. pg_state p = Synthesizing)
          (progress_reports (fst (synth_loop rp env ts i c))))
       = [Suc c ..< Suc (c + resolved (fst (synth_loop rp env ts i c)))]
   \<and> list_all (percentage_ok rp)
         (progress_reports (fst (preCacheBook rp env extracted checkCachedTexts)))
   \<and> pg_percentage (updateProgress rp st cur 0 msg err) = 0
   \<and> (0 < t \<longrightarrow> pg_percentage (updateProgress exact_round_percent st cur t msg err)
                    = round (100 * real cur / real t))"
  using synth_loop_reports[of rp env ts i c]
    preCacheBook_percentages[of rp env extracted checkCachedTexts]
    exact_round_percent_round[of t cur]
  by (simp add: updateProgress_def)

theorem progress_reports_follow_resolved_requests_witness:
  "(0::nat) < 3
   \<and> pg_percentage (updateProgress exact_round_percent Synthesizing 2 3 [] None) = 67
   \<and> round (100 * real 2 / real 3) = 67
   \<and> resolved (fst (synth_loop exact_round_percent demo_env [''a'', ''b''] 0 0)) = 2
   \<and> per_chunk_reports (fst (synth_loop exact_round_percent demo_env [''a'', ''b''] 0 0))
   \<and> map pg_current (filter (\<lambda>p. pg_state p = Synthesizing)
          (progress_reports (fst (synth_loop exact_round_percent demo_env [''a'', ''b''] 0 0))))
       = [1, 2]"
proof -
  have r: "resolved (fst (synth_loop exact_round_percent demo_env [''a'', ''b''] 0 0)) = 2"
    by code_simp
  have p: "pg_percentage (updateProgress exact_round_percent Synthesizing 2 3 [] None) = 67"
    by code_simp
  have u: "[Suc 0 ..< Suc (0 + 2)] = [1, 2]" by code_simp
  from progress_reports_follow_resolved_requests[where rp = exact_round_percent
      and env = demo_env and ts = "[''a'', ''b'']" and i = 0 and c = 0 and t = 3 and cur = 2
      and st = Synthesizing and msg = "[]" and err = None]
  show ?thesis unfolding r p u by simp
qed




end
